theory Spec2Isabelle
  imports Main "HOL-Library.Word"
begin

unbundle bit_operations_syntax

section \<open>Geometry primitives (include/conutils.h, src/geometry.cpp)\<close>

text \<open>
  Coordinates are \<open>ssize_t\<close> in the source. They are modelled as mathematical integers:
  signed overflow is undefined behaviour in C++, so the model describes exactly the runs
  in which no coordinate leaves the 64-bit range. The fields \<open>x\<close>, \<open>y\<close> of \<open>Point\<close> are
  named \<open>px\<close>, \<open>py\<close>, and \<open>top\<close>, \<open>bottom\<close> of \<open>Rect\<close> are named \<open>rtop\<close>, \<open>rbottom\<close>
  (the short names are taken by HOL).
\<close>

record Point =
  px :: int
  py :: int

record Rect =
  rtop :: Point
  rbottom :: Point

text \<open>\<open>Rect(tx, ty, bx, by)\<close> and the default constructor \<open>Rect()\<close>, whose two points
  are default-constructed to \<open>(0, 0)\<close>.\<close>

definition Rect4 :: "int \<Rightarrow> int \<Rightarrow> int \<Rightarrow> int \<Rightarrow> Rect" where
  "Rect4 tx ty bx by = \<lparr>rtop = \<lparr>px = tx, py = ty\<rparr>, rbottom = \<lparr>px = bx, py = by\<rparr>\<rparr>"

definition Rect0 :: Rect where
  "Rect0 = Rect4 0 0 0 0"

text \<open>\<open>width()\<close>, \<open>height()\<close> and \<open>size()\<close> return \<open>size_t\<close>. \<open>fill\<close>, \<open>blend\<close> and \<open>render\<close> apply
  them to rectangles with \<open>bottom \<ge> top\<close> only, where they are the natural numbers below.
  \<open>Rect::move\<close> stores the result back into an \<open>ssize_t\<close> and therefore uses the signed
  difference; \<open>point_for\<close> and \<open>invalidate(start, end)\<close>, which take any index, use the
  \<open>size_t\<close> value itself (below). Sizes and buffer indices are natural numbers: elsewhere the
  model covers the runs in which no \<open>size_t\<close> product or sum reaches \<open>2 ^ 64\<close>.\<close>

definition width :: "Rect \<Rightarrow> nat" where
  "width r = nat (px (rbottom r) - px (rtop r))"

definition height :: "Rect \<Rightarrow> nat" where
  "height r = nat (py (rbottom r) - py (rtop r))"

definition size_r :: "Rect \<Rightarrow> nat" where
  "size_r r = width r * height r"

definition index_for :: "Rect \<Rightarrow> Point \<Rightarrow> nat" where
  "index_for r p = nat ((py p - py (rtop r)) * int (width r) + (px p - px (rtop r)))"

text \<open>Modelled from the spec: \<open>Rect::offset\<close> is called by \<open>Surface::fill\<close> and
  \<open>Surface::blend\<close> but is not declared in the header under src/; the header declares
  \<open>index_for\<close>, the "row-major linear mapping relative to the rect's own top-left" of the
  spec, and \<open>offset\<close> is taken to be that mapping.\<close>

definition offset :: "Rect \<Rightarrow> Point \<Rightarrow> nat" where
  "offset r p = index_for r p"

text \<open>The conversions between \<open>ssize_t\<close> and \<open>size_t\<close>: both keep the 64 bits of the value.\<close>

definition size_t_of :: "int \<Rightarrow> nat" where
  "size_t_of i = unat (word_of_int i :: 64 word)"

definition ssize_t_of :: "nat \<Rightarrow> int" where
  "ssize_t_of n = sint (word_of_nat n :: 64 word)"

text \<open>\<open>point_for\<close> works in \<open>size_t\<close>: \<open>width()\<close> is the difference \<open>bottom.x - top.x\<close> converted
  to \<open>size_t\<close>, each sum \<open>top + (index op width())\<close> is computed in \<open>size_t\<close> and wraps at
  \<open>2 ^ 64\<close>, and the constructor of \<open>Point\<close> converts it back to \<open>ssize_t\<close>. The index is a
  \<open>size_t\<close> value, a natural number below \<open>2 ^ 64\<close>. With a zero width the C++ division is
  undefined (it traps), which is \<open>None\<close> here.\<close>

definition point_for :: "Rect \<Rightarrow> nat \<Rightarrow> Point option" where
  "point_for r i =
     (let w = size_t_of (px (rbottom r) - px (rtop r))
      in if w = 0 then None
         else Some \<lparr>px = ssize_t_of (size_t_of (px (rtop r)) + i mod w),
                     py = ssize_t_of (size_t_of (py (rtop r)) + i div w)\<rparr>)"

definition valid :: "Rect \<Rightarrow> bool" where
  "valid r \<longleftrightarrow> px (rbottom r) > px (rtop r) \<and> py (rbottom r) > py (rtop r)"

definition intersect :: "Rect \<Rightarrow> Rect \<Rightarrow> Rect" where
  "intersect r1 r2 =
     \<lparr>rtop = \<lparr>px = max (px (rtop r1)) (px (rtop r2)), py = max (py (rtop r1)) (py (rtop r2))\<rparr>,
      rbottom = \<lparr>px = min (px (rbottom r1)) (px (rbottom r2)),
                 py = min (py (rbottom r1)) (py (rbottom r2))\<rparr>\<rparr>"

definition boundingRect :: "Rect \<Rightarrow> Rect \<Rightarrow> Rect" where
  "boundingRect r1 r2 =
     \<lparr>rtop = \<lparr>px = min (px (rtop r1)) (px (rtop r2)), py = min (py (rtop r1)) (py (rtop r2))\<rparr>,
      rbottom = \<lparr>px = max (px (rbottom r1)) (px (rbottom r2)),
                 py = max (py (rbottom r1)) (py (rbottom r2))\<rparr>\<rparr>"

definition move_r :: "Rect \<Rightarrow> Point \<Rightarrow> Rect" where
  "move_r r pos =
     (let w = px (rbottom r) - px (rtop r); h = py (rbottom r) - py (rtop r)
      in \<lparr>rtop = pos, rbottom = \<lparr>px = px pos + w, py = py pos + h\<rparr>\<rparr>)"

subsection \<open>Geometric reading of rectangles\<close>

text \<open>The cells of a rectangle: the points of its half-open extent. One rectangle
  contains another when it starts no later and ends no earlier on both axes.\<close>

definition cells :: "Rect \<Rightarrow> (int \<times> int) set" where
  "cells r = {(cx, cy). px (rtop r) \<le> cx \<and> cx < px (rbottom r)
                      \<and> py (rtop r) \<le> cy \<and> cy < py (rbottom r)}"

definition overlap :: "Rect \<Rightarrow> Rect \<Rightarrow> bool" where
  "overlap r1 r2 \<longleftrightarrow> valid r1 \<and> valid r2 \<and> cells r1 \<inter> cells r2 \<noteq> {}"

definition contains :: "Rect \<Rightarrow> Rect \<Rightarrow> bool" where
  "contains outer inner \<longleftrightarrow>
     px (rtop outer) \<le> px (rtop inner) \<and> py (rtop outer) \<le> py (rtop inner) \<and>
     px (rbottom inner) \<le> px (rbottom outer) \<and> py (rbottom inner) \<le> py (rbottom outer)"


section \<open>Cell model (include/conutils.h, struct Char)\<close>

record Char_t =
  val :: char
  fg :: "8 word"
  bg :: "8 word"
  attr :: "8 word"

definition transparent :: "8 word" where
  "transparent = 0x80"

definition white :: "8 word" where
  "white = 7"

definition black :: "8 word" where
  "black = 0"

definition none :: "8 word" where
  "none = 0"

text \<open>\<open>Char(val)\<close> with the defaulted colours and attributes; \<open>Char()\<close> is \<open>Char(' ')\<close>.\<close>

definition Char1 :: "char \<Rightarrow> Char_t" where
  "Char1 c = \<lparr>val = c, fg = white, bg = black, attr = none\<rparr>"

definition blank :: Char_t where
  "blank = Char1 (CHR '' '')"

section \<open>Surfaces (include/conutils.h, class Surface; surface.cpp)\<close>

text \<open>
  Surfaces refer to each other by pointer (\<open>mParent\<close>, the sets in \<open>mLayerMap\<close>), and
  \<open>render\<close> writes through these pointers, so the objects live in a store indexed by
  address. \<open>nullptr\<close> is \<open>None\<close>. \<open>std::map<int, std::set<Surface *>>\<close> is an association
  list ordered by Z whose values are address lists in increasing order without repetition,
  which is the order in which the source iterates them. The buffer \<open>mData\<close> is the list of
  its cells. An error return \<open>-E\<close> of the source is \<open>Inl E\<close>; \<open>Inr ()\<close> is the return
  value 0.
\<close>

type_synonym addr = nat

datatype errno = EINVAL | ENOMEM | ENOLINK

record Surface =
  mBounds :: Rect
  mDirty :: Rect
  mPos :: Point
  mVisible :: bool
  mParent :: "addr option"
  mData :: "Char_t list"
  mLayerMap :: "(int \<times> addr list) list"

type_synonym store = "addr \<Rightarrow> Surface"

text \<open>The state of an object after the default constructor \<open>Surface()\<close>.\<close>

definition Surface_default :: Surface where
  "Surface_default =
     \<lparr>mBounds = Rect0, mDirty = Rect0, mPos = \<lparr>px = 0, py = 0\<rparr>, mVisible = True,
      mParent = None, mData = [], mLayerMap = []\<rparr>"

definition bounds :: "Surface \<Rightarrow> Rect" where
  "bounds s = move_r (mBounds s) (mPos s)"

subsection \<open>Invalidation\<close>

text \<open>The three overloads of \<open>invalidate\<close>. Each returns a reference to \<open>mDirty\<close>, which
  is the field \<open>mDirty\<close> of the object returned here.\<close>

definition invalidate_all :: "Surface \<Rightarrow> Surface" where
  "invalidate_all s = s\<lparr>mDirty := mBounds s\<rparr>"

definition invalidate :: "Surface \<Rightarrow> Rect \<Rightarrow> Surface" where
  "invalidate s bnds =
     (if valid (mDirty s)
      then s\<lparr>mDirty := boundingRect (mDirty s) (intersect (mBounds s) bnds)\<rparr>
      else s\<lparr>mDirty := intersect (mBounds s) bnds\<rparr>)"

text \<open>\<open>end - 1\<close> is computed in \<open>size_t\<close>, so it wraps for \<open>end = 0\<close>. \<open>mBounds.width()\<close> is a
  \<open>size_t\<close> that the constructor of \<open>Rect\<close> converts to \<open>ssize_t\<close>.\<close>

definition invalidate_range :: "Surface \<Rightarrow> nat \<Rightarrow> nat \<Rightarrow> Surface option" where
  "invalidate_range s start_i end_i =
     (case (point_for (mBounds s) start_i,
            point_for (mBounds s) (if end_i = 0 then 2 ^ 64 - 1 else end_i - 1)) of
        (Some start_p, Some end_p) \<Rightarrow>
          Some (invalidate s
            (if py start_p = py end_p
             then Rect4 (px start_p) (py start_p) (px end_p + 1) (py end_p + 1)
             else Rect4 0 (py start_p)
                    (ssize_t_of (size_t_of (px (rbottom (mBounds s)) - px (rtop (mBounds s)))))
                    (py end_p + 1)))
      | _ \<Rightarrow> None)"

subsection \<open>Fill and clear\<close>

definition fill_cell :: "Rect \<Rightarrow> Rect \<Rightarrow> Char_t \<Rightarrow> nat \<Rightarrow> nat \<Rightarrow> Char_t list \<Rightarrow> Char_t list" where
  "fill_cell bnds dirty pattern cy cx buf =
     buf[offset bnds \<lparr>px = px (rtop dirty) + int cx, py = py (rtop dirty) + int cy\<rparr> := pattern]"

definition fill_rect :: "Rect \<Rightarrow> Rect \<Rightarrow> Char_t \<Rightarrow> Char_t list \<Rightarrow> Char_t list" where
  "fill_rect bnds dirty pattern buf =
     fold (\<lambda>cy. fold (fill_cell bnds dirty pattern cy) [0..<width dirty]) [0..<height dirty] buf"

text \<open>\<open>while (sz--) data[sz] = pattern\<close> writes the indices \<open>sz - 1\<close> down to \<open>0\<close>.\<close>

definition fill_all :: "nat \<Rightarrow> Char_t \<Rightarrow> Char_t list \<Rightarrow> Char_t list" where
  "fill_all sz pattern buf = fold (\<lambda>i b. b[i := pattern]) (rev [0..<sz]) buf"

definition fill :: "Surface \<Rightarrow> Char_t \<Rightarrow> Rect \<Rightarrow> errno + Surface" where
  "fill s pattern crop =
     (if valid crop then
        (let dirty = intersect (mBounds s) crop in
         if \<not> valid dirty then Inl EINVAL
         else Inr (invalidate (s\<lparr>mData := fill_rect (mBounds s) dirty pattern (mData s)\<rparr>) dirty))
      else Inr (invalidate (s\<lparr>mData := fill_all (size_r (mBounds s)) pattern (mData s)\<rparr>)
                  (mBounds s)))"

definition clear :: "Surface \<Rightarrow> Rect \<Rightarrow> errno + Surface" where
  "clear s crop = fill s blank crop"

text \<open>A call whose return value the source ignores: the object is as the call left it.\<close>

definition ignoring :: "Surface \<Rightarrow> errno + Surface \<Rightarrow> Surface" where
  "ignoring s r = (case r of Inl e \<Rightarrow> s | Inr s' \<Rightarrow> s')"

subsection \<open>Resize and construction\<close>

text \<open>\<open>new Char[width * height]\<close> default-constructs every cell. \<open>operator new\<close> throws
  instead of returning null, so the \<open>-ENOMEM\<close> return is not reachable and allocation
  succeeds in the model. The parent is invalidated with the old placement before
  \<open>mBounds\<close> changes; the result of \<open>clear()\<close> is ignored.\<close>

definition resize :: "store \<Rightarrow> addr \<Rightarrow> nat \<Rightarrow> nat \<Rightarrow> store \<times> (errno + unit)" where
  "resize h this w hg =
     (let h1 = h(this := (h this)\<lparr>mData := replicate (w * hg) blank\<rparr>);
          h2 = (case mParent (h1 this) of
                  None \<Rightarrow> h1
                | Some p \<Rightarrow> h1(p := invalidate (h1 p) (bounds (h1 this))));
          h3 = h2(this := (h2 this)\<lparr>mBounds := Rect4 0 0 (int w) (int hg)\<rparr>);
          h4 = h3(this := ignoring (h3 this) (clear (h3 this) Rect0))
      in (h4, Inr ()))"

text \<open>\<open>Surface(width, height)\<close> constructed at address \<open>this\<close>.\<close>

definition Surface_new :: "store \<Rightarrow> addr \<Rightarrow> nat \<Rightarrow> nat \<Rightarrow> store" where
  "Surface_new h this w hg = fst (resize (h(this := Surface_default)) this w hg)"

subsection \<open>Blend\<close>

text \<open>\<open>other\<close> may be the destination itself; then \<open>src\<close> and \<open>dst\<close> are the same array and
  every read sees the writes made so far (\<open>alias\<close>).\<close>

definition blend_cell ::
  "bool \<Rightarrow> Char_t list \<Rightarrow> Rect \<Rightarrow> Rect \<Rightarrow> Rect \<Rightarrow> Rect \<Rightarrow> nat \<Rightarrow> nat \<Rightarrow> Char_t list \<Rightarrow> Char_t list" where
  "blend_cell alias src sb s_crop db d_crop cy cx dst =
     (let src_p = \<lparr>px = px (rtop s_crop) + int cx, py = py (rtop s_crop) + int cy\<rparr>;
          dst_p = \<lparr>px = px (rtop d_crop) + int cx, py = py (rtop d_crop) + int cy\<rparr>;
          src_ch = (if alias then dst else src) ! offset sb src_p
      in if attr src_ch AND transparent = 0 then dst[offset db dst_p := src_ch] else dst)"

definition blend_rect ::
  "bool \<Rightarrow> Char_t list \<Rightarrow> Rect \<Rightarrow> Rect \<Rightarrow> Rect \<Rightarrow> Rect \<Rightarrow> Char_t list \<Rightarrow> Char_t list" where
  "blend_rect alias src sb s_crop db d_crop dst =
     fold (\<lambda>cy. fold (blend_cell alias src sb s_crop db d_crop cy) [0..<width d_crop])
       [0..<height d_crop] dst"

definition blend :: "store \<Rightarrow> addr \<Rightarrow> addr \<Rightarrow> Rect \<Rightarrow> Point \<Rightarrow> store \<times> (errno + unit)" where
  "blend h this other src_crop pos =
     (let s_crop = intersect (mBounds (h other)) src_crop;
          d_crop = intersect (mBounds (h this)) (move_r s_crop pos)
      in if \<not> valid s_crop \<or> \<not> valid d_crop then (h, Inl EINVAL)
         else
           (let buf = blend_rect (other = this) (mData (h other)) (mBounds (h other)) s_crop
                        (mBounds (h this)) d_crop (mData (h this));
                h1 = h(this := (h this)\<lparr>mData := buf\<rparr>)
            in (h1(this := invalidate (h1 this) d_crop), Inr ())))"

subsection \<open>Layers\<close>

fun set_insert :: "addr \<Rightarrow> addr list \<Rightarrow> addr list" where
  "set_insert a [] = [a]"
| "set_insert a (b # bs) =
     (if a < b then a # b # bs else if a = b then b # bs else b # set_insert a bs)"

text \<open>\<open>find(Z)\<close> followed by an insertion into the set found, or into the set that
  \<open>mLayerMap[Z]\<close> creates.\<close>

fun layer_insert :: "int \<Rightarrow> addr \<Rightarrow> (int \<times> addr list) list \<Rightarrow> (int \<times> addr list) list" where
  "layer_insert Z a [] = [(Z, [a])]"
| "layer_insert Z a ((k, s) # m) =
     (if Z < k then (Z, [a]) # (k, s) # m
      else if Z = k then (k, set_insert a s) # m
      else (k, s) # layer_insert Z a m)"

text \<open>The loop of \<open>removeLayer\<close> and \<open>moveLayer\<close>: the first set that holds \<open>sf\<close> loses it,
  and its map entry too when it becomes empty. \<open>None\<close>: no set held \<open>sf\<close>.\<close>

fun layer_erase :: "addr \<Rightarrow> (int \<times> addr list) list \<Rightarrow> (int \<times> addr list) list option" where
  "layer_erase a [] = None"
| "layer_erase a ((k, s) # m) =
     (if a \<in> set s
      then Some (if removeAll a s = [] then m else (k, removeAll a s) # m)
      else map_option ((#) (k, s)) (layer_erase a m))"

text \<open>The children in the order in which \<open>render\<close> visits them.\<close>

definition layers :: "Surface \<Rightarrow> addr list" where
  "layers s = concat (map snd (mLayerMap s))"

definition addLayer :: "store \<Rightarrow> addr \<Rightarrow> addr \<Rightarrow> int \<Rightarrow> store \<times> (errno + unit)" where
  "addLayer h this sf Z =
     (if mParent (h sf) \<noteq> None then (h, Inl EINVAL)
      else
        (let h1 = h(this := (h this)\<lparr>mLayerMap := layer_insert Z sf (mLayerMap (h this))\<rparr>);
             h2 = h1(this := invalidate (h1 this) (bounds (h1 sf)));
             h3 = h2(sf := (h2 sf)\<lparr>mParent := Some this\<rparr>)
         in (h3, Inr ())))"

definition addLayer_pos :: "store \<Rightarrow> addr \<Rightarrow> addr \<Rightarrow> Point \<Rightarrow> int \<Rightarrow> store \<times> (errno + unit)" where
  "addLayer_pos h this sf pos Z =
     (if mParent (h sf) \<noteq> None then (h, Inl EINVAL)
      else
        (let h0 = h(sf := (h sf)\<lparr>mPos := pos\<rparr>);
             h1 = h0(this := (h0 this)\<lparr>mLayerMap := layer_insert Z sf (mLayerMap (h0 this))\<rparr>);
             h2 = h1(this := invalidate (h1 this) (bounds (h1 sf)));
             h3 = h2(sf := (h2 sf)\<lparr>mParent := Some this\<rparr>)
         in (h3, Inr ())))"

definition removeLayer :: "store \<Rightarrow> addr \<Rightarrow> addr \<Rightarrow> store \<times> (errno + unit)" where
  "removeLayer h this sf =
     (if mParent (h sf) \<noteq> Some this then (h, Inl EINVAL)
      else
        (case layer_erase sf (mLayerMap (h this)) of
           None \<Rightarrow> (h, Inl EINVAL)
         | Some m \<Rightarrow>
             (let h1 = h(this := (h this)\<lparr>mLayerMap := m\<rparr>);
                  h2 = h1(this := invalidate (h1 this) (bounds (h1 sf)));
                  h3 = h2(sf := (h2 sf)\<lparr>mParent := None\<rparr>)
              in (h3, Inr ()))))"

definition moveLayer :: "store \<Rightarrow> addr \<Rightarrow> addr \<Rightarrow> int \<Rightarrow> store \<times> (errno + unit)" where
  "moveLayer h this sf Z =
     (if mParent (h sf) \<noteq> Some this then (h, Inl EINVAL)
      else
        (case layer_erase sf (mLayerMap (h this)) of
           None \<Rightarrow> (h, Inl EINVAL)
         | Some m \<Rightarrow>
             (let h1 = h(this := (h this)\<lparr>mLayerMap := layer_insert Z sf m\<rparr>);
                  h2 = h1(this := invalidate (h1 this) (bounds (h1 sf)))
              in (h2, Inr ()))))"


subsection \<open>Visibility and movement\<close>

definition show_s :: "Surface \<Rightarrow> Surface" where
  "show_s s = (invalidate_all s)\<lparr>mVisible := True\<rparr>"

text \<open>The common prefix of \<open>hide\<close>, \<open>move\<close> and \<open>moveZ\<close>: \<open>invalidate()\<close> on the object and
  \<open>mParent->invalidate(bounds())\<close> on its parent \<open>p\<close>.\<close>

definition invalidate_in_parent :: "store \<Rightarrow> addr \<Rightarrow> addr \<Rightarrow> store" where
  "invalidate_in_parent h this p =
     (let h1 = h(this := invalidate_all (h this))
      in h1(p := invalidate (h1 p) (bounds (h1 this))))"

definition hide :: "store \<Rightarrow> addr \<Rightarrow> store" where
  "hide h this =
     (let h1 = (case mParent (h this) of
                  None \<Rightarrow> h
                | Some p \<Rightarrow> invalidate_in_parent h this p)
      in h1(this := (h1 this)\<lparr>mVisible := False\<rparr>))"

definition move :: "store \<Rightarrow> addr \<Rightarrow> Point \<Rightarrow> store \<times> (errno + unit)" where
  "move h this pos =
     (let h1 = (case mParent (h this) of
                  None \<Rightarrow> h
                | Some p \<Rightarrow> invalidate_in_parent h this p)
      in (h1(this := (h1 this)\<lparr>mPos := pos\<rparr>), Inr ()))"

definition move_Z :: "store \<Rightarrow> addr \<Rightarrow> Point \<Rightarrow> int \<Rightarrow> store \<times> (errno + unit)" where
  "move_Z h this pos Z =
     (let h1 = (case mParent (h this) of
                  None \<Rightarrow> h
                | Some p \<Rightarrow> fst (moveLayer (invalidate_in_parent h this p) p this Z))
      in (h1(this := (h1 this)\<lparr>mPos := pos\<rparr>), Inr ()))"

definition moveZ :: "store \<Rightarrow> addr \<Rightarrow> int \<Rightarrow> store \<times> (errno + unit)" where
  "moveZ h this Z =
     (case mParent (h this) of
        None \<Rightarrow> (h, Inl ENOLINK)
      | Some p \<Rightarrow> moveLayer (h(this := invalidate_all (h this))) p this Z)"

subsection \<open>Render\<close>

text \<open>The body of the first loop of \<open>render\<close> for one child \<open>sf\<close>.\<close>

definition collect_child :: "addr \<Rightarrow> addr \<Rightarrow> store \<Rightarrow> store" where
  "collect_child this sf h =
     (if mVisible (h sf) \<and> valid (mDirty (h sf))
      then
        (let d = mDirty (h sf); pos = mPos (h sf);
             sf_dirty = Rect4 (px (rtop d) + px pos) (py (rtop d) + py pos)
                              (px (rbottom d) + px pos) (py (rbottom d) + py pos)
         in h(this := invalidate (h this) sf_dirty))
      else h)"

definition collect_dirty :: "addr \<Rightarrow> store \<Rightarrow> store" where
  "collect_dirty this h = fold (collect_child this) (layers (h this)) h"

text \<open>The body of the second loop of \<open>render\<close> for one child \<open>sf\<close>; the result of \<open>blend\<close> is
  ignored.\<close>

definition blend_child :: "addr \<Rightarrow> addr \<Rightarrow> store \<Rightarrow> store" where
  "blend_child this sf h =
     (if mVisible (h sf) \<and> valid (mBounds (h sf))
      then
        (let c = intersect (mDirty (h this)) (bounds (h sf)); pos = rtop c; sp = mPos (h sf);
             src_crop = Rect4 (px (rtop c) - px sp) (py (rtop c) - py sp)
                              (px (rbottom c) - px sp) (py (rbottom c) - py sp);
             h1 = fst (blend h this sf src_crop pos)
         in h1(sf := (h1 sf)\<lparr>mDirty := Rect0\<rparr>))
      else h)"

definition blend_layers :: "addr \<Rightarrow> store \<Rightarrow> store" where
  "blend_layers this h = fold (blend_child this) (layers (h this)) h"

text \<open>
  \<open>render\<close> calls itself on the parent. Nothing in the source keeps the parent pointers
  acyclic, so the recursion need not end; the first argument bounds the depth of the
  call stack, and \<open>None\<close> means that the bound was reached. The virtual hook \<open>renderDone\<close>
  is recorded as a trace: the list of its invocations, each with the object it was invoked
  on and the rectangle it was given, in the order in which they happen.
\<close>

type_synonym trace = "(addr \<times> Rect) list"

text \<open>\<open>if (!mLayerMap.empty()) clear(mDirty)\<close>; the result of \<open>clear\<close> is ignored.\<close>

definition clear_dirty :: "addr \<Rightarrow> store \<Rightarrow> store" where
  "clear_dirty this h =
     (if mLayerMap (h this) \<noteq> []
      then h(this := ignoring (h this) (clear (h this) (mDirty (h this))))
      else h)"

fun render :: "nat \<Rightarrow> store \<Rightarrow> addr \<Rightarrow> (store \<times> trace) option" where
  "render 0 h this = None"
| "render (Suc n) h this =
     (let h1 = collect_dirty this h in
      if \<not> valid (mDirty (h1 this)) then Some (h1, [])
      else
        (let h3 = blend_layers this (clear_dirty this h1)
         in case (case mParent (h3 this) of
                    None \<Rightarrow> Some (h3, [])
                  | Some p \<Rightarrow> render n h3 p) of
              None \<Rightarrow> None
            | Some (h4, t) \<Rightarrow>
                Some (h4(this := (h4 this)\<lparr>mDirty := Rect0\<rparr>), t @ [(this, mDirty (h4 this))])))"

text \<open>The parent pointers starting at \<open>a\<close> reach \<open>nullptr\<close> after at most \<open>k\<close> steps.\<close>

fun chain_ends :: "nat \<Rightarrow> store \<Rightarrow> addr \<Rightarrow> bool" where
  "chain_ends 0 h a = (mParent (h a) = None)"
| "chain_ends (Suc k) h a = (case mParent (h a) of None \<Rightarrow> True | Some p \<Rightarrow> chain_ends k h p)"

subsection \<open>Notions used in the proofs\<close>

text \<open>\<open>frame h h'\<close>: the two stores differ in dirty regions and buffers only.
  \<open>cleaned h h'\<close>: every dirty region that is valid in \<open>h'\<close> is the one of \<open>h\<close>.\<close>

definition frame :: "store \<Rightarrow> store \<Rightarrow> bool" where
  "frame h h' \<longleftrightarrow>
     (\<forall>a. mBounds (h' a) = mBounds (h a) \<and> mPos (h' a) = mPos (h a) \<and>
          mVisible (h' a) = mVisible (h a) \<and> mParent (h' a) = mParent (h a) \<and>
          mLayerMap (h' a) = mLayerMap (h a))"

text \<open>The invariant of the data model: a valid dirty rectangle lies within the bounds.\<close>

definition dirty_ok :: "Surface \<Rightarrow> bool" where
  "dirty_ok s \<longleftrightarrow> (valid (mDirty s) \<longrightarrow> contains (mBounds s) (mDirty s))"

definition cleaned :: "store \<Rightarrow> store \<Rightarrow> bool" where
  "cleaned h h' \<longleftrightarrow> (\<forall>a. valid (mDirty (h' a)) \<longrightarrow> mDirty (h' a) = mDirty (h a))"

text \<open>A write that may be skipped, the cell of a rectangle that a loop index pair denotes,
  and the cell that \<open>blend\<close> copies for an index pair, if any.\<close>

definition cond_write :: "('k \<Rightarrow> nat) \<Rightarrow> ('k \<Rightarrow> 'a option) \<Rightarrow> 'k \<Rightarrow> 'a list \<Rightarrow> 'a list" where
  "cond_write idx wr k b = (case wr k of None \<Rightarrow> b | Some v \<Rightarrow> b[idx k := v])"

definition cell_at :: "Rect \<Rightarrow> nat \<times> nat \<Rightarrow> Point" where
  "cell_at r k = \<lparr>px = px (rtop r) + int (snd k), py = py (rtop r) + int (fst k)\<rparr>"

definition blend_src :: "Char_t list \<Rightarrow> Rect \<Rightarrow> Rect \<Rightarrow> nat \<times> nat \<Rightarrow> Char_t option" where
  "blend_src src sb s_crop k =
     (let ch = src ! offset sb (cell_at s_crop k)
      in if attr ch AND transparent = 0 then Some ch else None)"

text \<open>The content expected at the point \<open>(cx, cy)\<close> of \<open>P\<close> after \<open>P\<close> has composited its
  child \<open>C\<close> over the dirty rectangle \<open>D\<close>: the child's cell where the child lies inside \<open>D\<close>
  and the cell is not transparent, a blank elsewhere in \<open>D\<close>, the previous content outside
  \<open>D\<close>.\<close>

definition composed :: "store \<Rightarrow> addr \<Rightarrow> addr \<Rightarrow> Rect \<Rightarrow> int \<Rightarrow> int \<Rightarrow> Char_t" where
  "composed h P C D cx cy =
     (let src = mData (h C) ! offset (mBounds (h C))
                  \<lparr>px = cx - px (mPos (h C)), py = cy - py (mPos (h C))\<rparr>
      in if (cx, cy) \<in> cells D \<and> (cx, cy) \<in> cells (bounds (h C)) \<and> attr src AND transparent = 0
         then src
         else if (cx, cy) \<in> cells D then blank
         else mData (h P) ! offset (mBounds (h P)) \<lparr>px = cx, py = cy\<rparr>)"

text \<open>The content expected at the point \<open>(cx, cy)\<close> of \<open>P\<close> after \<open>P\<close> has composited all its
  layers over the dirty rectangle \<open>D\<close>, in the manner of a painter: inside \<open>D\<close> a blank, over
  which each layer in turn puts its cell when the layer is visible, has valid bounds and
  covers the point, and the cell is not transparent; outside \<open>D\<close> the previous content.\<close>

definition paint_cell :: "store \<Rightarrow> Rect \<Rightarrow> int \<Rightarrow> int \<Rightarrow> addr \<Rightarrow> Char_t \<Rightarrow> Char_t" where
  "paint_cell h D cx cy c v =
     (let src = mData (h c) ! offset (mBounds (h c))
                  \<lparr>px = cx - px (mPos (h c)), py = cy - py (mPos (h c))\<rparr>
      in if mVisible (h c) \<and> valid (mBounds (h c)) \<and> (cx, cy) \<in> cells D \<and>
            (cx, cy) \<in> cells (bounds (h c)) \<and> attr src AND transparent = 0
         then src else v)"

definition painted :: "store \<Rightarrow> addr \<Rightarrow> Rect \<Rightarrow> int \<Rightarrow> int \<Rightarrow> Char_t" where
  "painted h P D cx cy =
     fold (paint_cell h D cx cy) (layers (h P))
       (if (cx, cy) \<in> cells D then blank
        else mData (h P) ! offset (mBounds (h P)) \<lparr>px = cx, py = cy\<rparr>)"

section \<open>Example stores\<close>

text \<open>Every address holds a default-constructed surface.\<close>

definition store0 :: store where
  "store0 = (\<lambda>a. Surface_default)"

text \<open>A 10 by 10 surface at address 10 with a 2 by 2 child, address 20, attached at
  position (1, 1) and Z = 0.\<close>

definition ex_pair :: store where
  "ex_pair =
     fst (addLayer_pos (Surface_new (Surface_new store0 10 10 10) 20 2 2) 10 20
            \<lparr>px = 1, py = 1\<rparr> 0)"

text \<open>A 10 by 10 surface at address 10 and a detached 2 by 2 surface at address 20 filled
  with a transparent \<open>'b'\<close>.\<close>

definition ex_transp :: store where
  "ex_transp =
     (let h = Surface_new (Surface_new store0 10 10 10) 20 2 2
      in h(20 := ignoring (h 20)
                   (fill (h 20) \<lparr>val = CHR ''b'', fg = white, bg = black, attr = transparent\<rparr>
                      Rect0)))"

text \<open>The same two surfaces, the child attached at position (20, 20), outside the parent.\<close>

definition ex_far :: store where
  "ex_far =
     fst (addLayer_pos (Surface_new (Surface_new store0 10 10 10) 20 2 2) 10 20
            \<lparr>px = 20, py = 20\<rparr> 0)"

text \<open>A 10 by 10 surface that has been rendered once, and the same with a fresh 2 by 2 child
  attached at position (20, 20).\<close>

definition ex_clean_root :: store where
  "ex_clean_root =
     (Surface_new store0 10 10 10)(10 := (Surface_new store0 10 10 10 10)\<lparr>mDirty := Rect0\<rparr>)"

definition ex_outside :: store where
  "ex_outside =
     fst (addLayer_pos (Surface_new ex_clean_root 20 2 2) 10 20 \<lparr>px = 20, py = 20\<rparr> 0)"

text \<open>A surface constructed 10 by 10 and then resized to 5 by 5.\<close>

definition ex_resized :: store where
  "ex_resized = fst (resize (Surface_new store0 10 10 10) 10 5 5)"

text \<open>The scenario of a child added to a root: a 2 by 2 surface constructed at \<open>C\<close>, filled
  with the pattern \<open>b\<close> and attached to \<open>R\<close> at position (2, 2) with Z = 1.\<close>

definition add_b :: "store \<Rightarrow> addr \<Rightarrow> addr \<Rightarrow> Char_t \<Rightarrow> store" where
  "add_b h R C b =
     fst (addLayer_pos
            (let h1 = Surface_new h C 2 2 in h1(C := ignoring (h1 C) (fill (h1 C) b Rect0)))
            R C \<lparr>px = 2, py = 2\<rparr> 1)"

text \<open>That scenario on a root just constructed, and on a root rendered once.\<close>

definition ex_fresh_b :: store where
  "ex_fresh_b = add_b (Surface_new store0 10 10 10) 10 20 (Char1 (CHR ''b''))"

definition ex_clean_b :: store where
  "ex_clean_b = add_b ex_clean_root 10 20 (Char1 (CHR ''b''))"


text \<open>A 10 by 10 surface holding a child that was constructed 2 by 2 and resized to 0 by 0
  before it was attached.\<close>

definition ex_stale :: store where
  "ex_stale =
     fst (addLayer (fst (resize (Surface_new (Surface_new store0 10 10 10) 20 2 2) 20 0 0))
            10 20 0)"



subsection \<open>Sequences of \<open>invalidate\<close> calls\<close>

text \<open>
  The three overloads of \<open>invalidate\<close> as one call type, a sequence of calls run until the
  first error, and the set of cells a call names: the bounds, the rectangle, or the cells at
  the buffer indices \<open>start\<close> up to \<open>end - 1\<close>.
\<close>

datatype inv_call = Inv_all | Inv_rect Rect | Inv_range nat nat

fun do_call :: "Surface \<Rightarrow> inv_call \<Rightarrow> Surface option" where
  "do_call s Inv_all = Some (invalidate_all s)"
| "do_call s (Inv_rect r) = Some (invalidate s r)"
| "do_call s (Inv_range i j) = invalidate_range s i j"

fun do_calls :: "Surface \<Rightarrow> inv_call list \<Rightarrow> Surface option" where
  "do_calls s [] = Some s"
| "do_calls s (c # cs) = (case do_call s c of None \<Rightarrow> None | Some s' \<Rightarrow> do_calls s' cs)"

definition region :: "Rect \<Rightarrow> inv_call \<Rightarrow> (int \<times> int) set" where
  "region bnds c =
     (case c of
        Inv_all \<Rightarrow> cells bnds
      | Inv_rect r \<Rightarrow> cells r
      | Inv_range i j \<Rightarrow>
          {(cx, cy). \<exists>k. i \<le> k \<and> k < j \<and> point_for bnds k = Some \<lparr>px = cx, py = cy\<rparr>})"

text \<open>A call that names buffer indices names indices of the buffer.\<close>

definition in_buffer :: "Rect \<Rightarrow> inv_call \<Rightarrow> bool" where
  "in_buffer bnds c = (case c of Inv_range i j \<Rightarrow> j \<le> size_r bnds | _ \<Rightarrow> True)"

section \<open>Properties of the geometry\<close>

lemma valid_cells: "valid r \<longleftrightarrow> cells r \<noteq> {}"
proof
  assume "valid r"
  then have "(px (rtop r), py (rtop r)) \<in> cells r"
    by (simp add: valid_def cells_def)
  then show "cells r \<noteq> {}" by blast
next
  assume "cells r \<noteq> {}"
  then obtain cx cy where "(cx, cy) \<in> cells r" by auto
  then show "valid r" by (auto simp: valid_def cells_def)
qed

lemma cells_intersect: "cells (intersect r1 r2) = cells r1 \<inter> cells r2"
  by (auto simp: cells_def intersect_def)

lemma cells_boundingRect: "cells r1 \<union> cells r2 \<subseteq> cells (boundingRect r1 r2)"
  by (auto simp: cells_def boundingRect_def)

lemma contains_cells: "contains outer inner \<Longrightarrow> cells inner \<subseteq> cells outer"
  by (auto simp: contains_def cells_def)

lemma intersect_valid_iff: "valid (intersect r1 r2) \<longleftrightarrow> overlap r1 r2"
proof -
  have "valid (intersect r1 r2) \<Longrightarrow> valid r1 \<and> valid r2"
    by (auto simp: valid_def intersect_def)
  then show ?thesis
    unfolding overlap_def using valid_cells [of "intersect r1 r2"] cells_intersect [of r1 r2]
    by auto
qed

text \<open>C8. For all rectangles \<open>r1\<close>, \<open>r2\<close>: \<open>intersect r1 r2\<close> is valid exactly when the two
  overlap geometrically (both valid and sharing a cell); \<open>boundingRect r1 r2\<close> contains
  both, and is valid as soon as one of them is.\<close>

theorem C8_intersect_boundingRect:
  "(valid (intersect r1 r2) \<longleftrightarrow> overlap r1 r2) \<and>
   contains (boundingRect r1 r2) r1 \<and> contains (boundingRect r1 r2) r2 \<and>
   cells r1 \<union> cells r2 \<subseteq> cells (boundingRect r1 r2) \<and>
   (valid r1 \<or> valid r2 \<longrightarrow> valid (boundingRect r1 r2))"
proof -
  have a: "contains (boundingRect r1 r2) r1 \<and> contains (boundingRect r1 r2) r2"
    by (simp add: contains_def boundingRect_def)
  have b: "valid r1 \<or> valid r2 \<longrightarrow> valid (boundingRect r1 r2)"
    by (auto simp: valid_def boundingRect_def)
  show ?thesis
    using a b intersect_valid_iff [of r1 r2] cells_boundingRect [of r1 r2] by blast
qed

theorem C8_witness:
  "valid (Rect4 0 0 2 2) \<and> valid (boundingRect (Rect4 0 0 2 2) (Rect4 5 5 3 3)) \<and>
   \<not> valid (intersect (Rect4 0 0 2 2) (Rect4 5 5 3 3))"
  using C8_intersect_boundingRect [of "Rect4 0 0 2 2" "Rect4 5 5 3 3"]
  by (simp add: valid_def Rect4_def intersect_def)

lemma Rect0_invalid [simp]: "\<not> valid Rect0"
  by (simp add: valid_def Rect0_def Rect4_def)

lemma valid_Rect4 [simp]: "valid (Rect4 tx ty bx by) \<longleftrightarrow> tx < bx \<and> ty < by"
  by (simp add: valid_def Rect4_def)

lemma intersect_idem [simp]: "intersect r r = r"
  by (simp add: intersect_def)

lemma width_Rect4 [simp]: "width (Rect4 tx ty bx by) = nat (bx - tx)"
  by (simp add: width_def Rect4_def)

lemma height_Rect4 [simp]: "height (Rect4 tx ty bx by) = nat (by - ty)"
  by (simp add: height_def Rect4_def)

lemma size_r_Rect4 [simp]: "size_r (Rect4 tx ty bx by) = nat (bx - tx) * nat (by - ty)"
  by (simp add: size_r_def)

section \<open>Construction\<close>

text \<open>The whole-buffer loop of \<open>fill\<close> overwrites the first \<open>sz\<close> cells.\<close>

lemma fill_all_eq: "n \<le> length buf \<Longrightarrow> fill_all n p buf = replicate n p @ drop n buf"
proof (induction n arbitrary: buf)
  case 0
  then show ?case by (simp add: fill_all_def)
next
  case (Suc n)
  have "fill_all (Suc n) p buf = fill_all n p (buf[n := p])"
    by (simp add: fill_all_def)
  also have "\<dots> = replicate n p @ drop n (buf[n := p])"
    using Suc by simp
  also have "drop n (buf[n := p]) = p # drop (Suc n) buf"
    using Suc.prems Cons_nth_drop_Suc [of n "buf[n := p]"] by simp
  finally show ?case by (simp add: replicate_app_Cons_same)
qed

lemma fill_all_replicate [simp]: "fill_all n p (replicate n q) = replicate n p"
  by (simp add: fill_all_eq)

text \<open>A freshly constructed surface is blank and entirely dirty.\<close>

lemma Surface_new_eq:
  "Surface_new h a w hg =
     h(a := \<lparr>mBounds = Rect4 0 0 (int w) (int hg), mDirty = Rect4 0 0 (int w) (int hg),
             mPos = \<lparr>px = 0, py = 0\<rparr>, mVisible = True, mParent = None,
             mData = replicate (w * hg) blank, mLayerMap = []\<rparr>)"
  by (simp add: Surface_new_def resize_def Surface_default_def clear_def fill_def
      ignoring_def invalidate_def)

lemma ex_pair_parent: "mParent (ex_pair 20) = Some 10" "mParent (ex_pair 10) = None"
  by (simp_all add: ex_pair_def addLayer_pos_def Surface_new_eq store0_def Surface_default_def
      invalidate_def)

section \<open>Attaching and moving\<close>

text \<open>C7. \<open>addLayer\<close>, in both overloads, called with a surface that already has a parent
  fails (the source returns \<open>-EINVAL\<close> on this path, the error the specification calls
  AlreadyAttached) and leaves the whole store as it was: the child map and the dirty region
  of the target, and the parent pointer, the position and the Z assignment of the
  surface.\<close>

theorem C7_addLayer_attached:
  "mParent (h sf) \<noteq> None \<Longrightarrow>
     addLayer h this sf Z = (h, Inl EINVAL) \<and> addLayer_pos h this sf pos Z = (h, Inl EINVAL)"
  by (simp add: addLayer_def addLayer_pos_def)

theorem C7_witness:
  "mParent (ex_pair 20) \<noteq> None \<and> addLayer ex_pair 30 20 5 = (ex_pair, Inl EINVAL)
     \<and> addLayer_pos ex_pair 30 20 \<lparr>px = 3, py = 3\<rparr> 5 = (ex_pair, Inl EINVAL)"
  using C7_addLayer_attached [of ex_pair 20 30 5 "\<lparr>px = 3, py = 3\<rparr>"] ex_pair_parent by simp

text \<open>C10. The position-only \<open>move\<close> returns 0 for every surface and every position; on a
  surface without a parent it stores the position and changes nothing else in the store
  (dirty region, buffer, bounds, visibility and children stay as they were).\<close>

theorem C10_move_returns_0:
  "snd (move h this pos) = Inr () \<and>
   (mParent (h this) = None \<longrightarrow> fst (move h this pos) = h(this := (h this)\<lparr>mPos := pos\<rparr>))"
  by (simp add: move_def Let_def)

theorem C10_witness:
  "mParent (ex_pair 10) = None \<and> snd (move ex_pair 10 \<lparr>px = 4, py = 5\<rparr>) = Inr () \<and>
   fst (move ex_pair 10 \<lparr>px = 4, py = 5\<rparr>)
     = ex_pair(10 := (ex_pair 10)\<lparr>mPos := \<lparr>px = 4, py = 5\<rparr>\<rparr>)"
  using C10_move_returns_0 [of ex_pair 10 "\<lparr>px = 4, py = 5\<rparr>"] ex_pair_parent by simp

section \<open>Invalidation\<close>

lemma invalidate_fields [simp]:
  "mBounds (invalidate s r) = mBounds s" "mPos (invalidate s r) = mPos s"
  "mVisible (invalidate s r) = mVisible s" "mParent (invalidate s r) = mParent s"
  "mData (invalidate s r) = mData s" "mLayerMap (invalidate s r) = mLayerMap s"
  by (simp_all add: invalidate_def)

lemma intersect_absorb [simp]: "intersect b (intersect b m) = intersect b m"
  by (simp add: intersect_def)

lemma invalidate_covers:
  "valid (intersect (mBounds s) r) \<Longrightarrow>
     valid (mDirty (invalidate s r)) \<and> contains (mDirty (invalidate s r)) (intersect (mBounds s) r)"
  by (auto simp: invalidate_def valid_def contains_def boundingRect_def)

section \<open>Blend\<close>

lemma fold_id: "(\<And>k b. k \<in> set ks \<Longrightarrow> P b \<Longrightarrow> f k b = b) \<Longrightarrow> P b \<Longrightarrow> fold f ks b = b"
  by (induction ks) auto

lemma contains_intersect_left: "contains r1 (intersect r1 r2)"
  by (simp add: contains_def intersect_def)

lemma contains_intersect_right: "contains r2 (intersect r1 r2)"
  by (simp add: contains_def intersect_def)

text \<open>A point of a valid part of a rectangle has its offset inside the buffer.\<close>

lemma offset_less:
  assumes "px (rtop r) \<le> px p" "px p < px (rbottom r)" "py (rtop r) \<le> py p" "py p < py (rbottom r)"
  shows "offset r p < size_r r"
proof -
  define a where "a = nat (px p - px (rtop r))"
  define b where "b = nat (py p - py (rtop r))"
  have a: "a < width r" and b: "b < height r"
    using assms by (simp_all add: a_def b_def width_def height_def)
  have "offset r p = b * width r + a"
    using assms by (simp add: offset_def index_for_def a_def b_def nat_add_distrib nat_mult_distrib)
  also have "\<dots> < Suc b * width r" using a by simp
  also have "\<dots> \<le> height r * width r" using b by (intro mult_le_mono1) simp
  finally show ?thesis by (simp add: size_r_def mult.commute)
qed

lemma blend_cell_transparent:
  assumes "\<forall>c \<in> set (if alias then dst else src). attr c AND transparent \<noteq> 0"
    and "offset sb \<lparr>px = px (rtop s_crop) + int cx, py = py (rtop s_crop) + int cy\<rparr>
           < length (if alias then dst else src)"
  shows "blend_cell alias src sb s_crop db d_crop cy cx dst = dst"
  using assms by (simp add: blend_cell_def Let_def)

lemma blend_rect_transparent:
  assumes tr: "\<forall>c \<in> set (if alias then dst else src). attr c AND transparent \<noteq> 0"
    and len: "length (if alias then dst else src) = size_r sb"
    and s: "contains sb s_crop"
    and w: "width d_crop \<le> width s_crop" and h: "height d_crop \<le> height s_crop"
  shows "blend_rect alias src sb s_crop db d_crop dst = dst"
proof -
  have cell: "blend_cell alias src sb s_crop db d_crop cy cx dst = dst"
    if "cy < height d_crop" "cx < width d_crop" for cy cx
  proof -
    have "offset sb \<lparr>px = px (rtop s_crop) + int cx, py = py (rtop s_crop) + int cy\<rparr> < size_r sb"
      using that s w h by (intro offset_less) (auto simp: contains_def width_def height_def)
    then show ?thesis using tr len by (intro blend_cell_transparent) simp_all
  qed
  have row: "fold (blend_cell alias src sb s_crop db d_crop cy) [0..<width d_crop] dst = dst"
    if "cy < height d_crop" for cy
    by (rule fold_id [where P = "\<lambda>b. b = dst"]) (use that cell in auto)
  show ?thesis
    unfolding blend_rect_def
    by (rule fold_id [where P = "\<lambda>b. b = dst"]) (use row in auto)
qed

lemma width_intersect_move:
  "valid (intersect db (move_r s_crop pos)) \<Longrightarrow>
     width (intersect db (move_r s_crop pos)) \<le> width s_crop \<and>
     height (intersect db (move_r s_crop pos)) \<le> height s_crop"
  by (auto simp: width_def height_def intersect_def move_r_def Let_def valid_def)

text \<open>C6. When every cell of the source carries the transparent bit (and the source buffer
  has the length of its bounds, so that every read is inside it), a \<open>blend\<close> that succeeds
  leaves every cell of every buffer as it was, for every \<open>src_crop\<close> and \<open>pos\<close>; the
  destination crop is valid and still ends up inside the destination's dirty region.\<close>

theorem C6_blend_transparent:
  assumes "\<forall>c \<in> set (mData (h other)). attr c AND transparent \<noteq> 0"
    and "length (mData (h other)) = size_r (mBounds (h other))"
    and "blend h this other src_crop pos = (h', Inr ())"
  shows "(\<forall>a. mData (h' a) = mData (h a)) \<and>
         valid (intersect (mBounds (h this)) (move_r (intersect (mBounds (h other)) src_crop) pos)) \<and>
         valid (mDirty (h' this)) \<and>
         contains (mDirty (h' this))
           (intersect (mBounds (h this)) (move_r (intersect (mBounds (h other)) src_crop) pos))"
proof -
  define s_crop where "s_crop = intersect (mBounds (h other)) src_crop"
  define d_crop where "d_crop = intersect (mBounds (h this)) (move_r s_crop pos)"
  have ok: "valid s_crop" "valid d_crop"
    using assms(3) by (auto simp: blend_def Let_def s_crop_def d_crop_def split: if_splits)
  have wh: "width d_crop \<le> width s_crop" "height d_crop \<le> height s_crop"
    using width_intersect_move [of "mBounds (h this)" s_crop pos] ok by (simp_all add: d_crop_def)
  have src: "\<forall>c \<in> set (if other = this then mData (h this) else mData (h other)).
               attr c AND transparent \<noteq> 0"
    using assms(1) by auto
  have len: "length (if other = this then mData (h this) else mData (h other))
               = size_r (mBounds (h other))"
    using assms(2) by auto
  have buf: "blend_rect (other = this) (mData (h other)) (mBounds (h other)) s_crop
               (mBounds (h this)) d_crop (mData (h this)) = mData (h this)"
    by (rule blend_rect_transparent [OF src len _ wh])
       (simp add: s_crop_def contains_intersect_left)
  have h': "h' = h(this := invalidate ((h this)\<lparr>mData := mData (h this)\<rparr>) d_crop)"
    using assms(3) ok buf by (simp add: blend_def Let_def s_crop_def [symmetric] d_crop_def [symmetric])
  have data: "\<forall>a. mData (h' a) = mData (h a)"
    by (simp add: h')
  have "valid (intersect (mBounds ((h this)\<lparr>mData := mData (h this)\<rparr>)) d_crop)"
    using ok by (simp add: d_crop_def intersect_absorb)
  from invalidate_covers [OF this]
  have "valid (mDirty (h' this)) \<and> contains (mDirty (h' this)) d_crop"
    by (simp add: h' d_crop_def intersect_absorb)
  with data ok show ?thesis by (simp add: s_crop_def d_crop_def)
qed


lemma ex_transp_eq:
  "mData (ex_transp 20)
     = replicate 4 \<lparr>val = CHR ''b'', fg = white, bg = black, attr = transparent\<rparr>"
  "mBounds (ex_transp 20) = Rect4 0 0 2 2" "mBounds (ex_transp 10) = Rect4 0 0 10 10"
  by (simp_all add: ex_transp_def Surface_new_eq fill_def ignoring_def)

theorem C6_witness:
  "length (mData (ex_transp 20)) = size_r (mBounds (ex_transp 20)) \<and>
   snd (blend ex_transp 10 20 (Rect4 0 0 2 2) \<lparr>px = 2, py = 2\<rparr>) = Inr () \<and>
   (\<forall>a. mData (fst (blend ex_transp 10 20 (Rect4 0 0 2 2) \<lparr>px = 2, py = 2\<rparr>) a)
          = mData (ex_transp a)) \<and>
   valid (mDirty (fst (blend ex_transp 10 20 (Rect4 0 0 2 2) \<lparr>px = 2, py = 2\<rparr>) 10))"
proof -
  have a: "\<forall>c \<in> set (mData (ex_transp 20)). attr c AND transparent \<noteq> 0"
    by (simp add: ex_transp_eq transparent_def)
  have b: "length (mData (ex_transp 20)) = size_r (mBounds (ex_transp 20))"
    by (simp add: ex_transp_eq)
  have c: "snd (blend ex_transp 10 20 (Rect4 0 0 2 2) \<lparr>px = 2, py = 2\<rparr>) = Inr ()"
    by (simp add: blend_def ex_transp_eq Let_def intersect_def move_r_def Rect4_def valid_def)
  then have d: "blend ex_transp 10 20 (Rect4 0 0 2 2) \<lparr>px = 2, py = 2\<rparr>
      = (fst (blend ex_transp 10 20 (Rect4 0 0 2 2) \<lparr>px = 2, py = 2\<rparr>), Inr ())"
    by (metis prod.collapse)
  show ?thesis using C6_blend_transparent [OF a b d] b c by simp
qed

section \<open>Render\<close>

lemma fold_inv: "(\<And>c h. P h \<Longrightarrow> P (f c h)) \<Longrightarrow> P h \<Longrightarrow> P (fold f cs h)"
  by (induction cs arbitrary: h) auto

lemma frame_refl [simp]: "frame h h"
  by (simp add: frame_def)

lemma frame_trans: "frame h h1 \<Longrightarrow> frame h1 h2 \<Longrightarrow> frame h h2"
  by (simp add: frame_def)

lemma frame_layers: "frame h h' \<Longrightarrow> layers (h' a) = layers (h a)"
  by (simp add: frame_def layers_def)

lemma fill_fields:
  "mBounds (ignoring s (fill s p c)) = mBounds s" "mPos (ignoring s (fill s p c)) = mPos s"
  "mVisible (ignoring s (fill s p c)) = mVisible s" "mParent (ignoring s (fill s p c)) = mParent s"
  "mLayerMap (ignoring s (fill s p c)) = mLayerMap s"
  by (simp_all add: fill_def ignoring_def Let_def)

lemma frame_upd_dirty_data:
  "mBounds s = mBounds (h a) \<Longrightarrow> mPos s = mPos (h a) \<Longrightarrow> mVisible s = mVisible (h a) \<Longrightarrow>
   mParent s = mParent (h a) \<Longrightarrow> mLayerMap s = mLayerMap (h a) \<Longrightarrow> frame h (h(a := s))"
  by (simp add: frame_def)

lemma collect_child_other: "a \<noteq> this \<Longrightarrow> collect_child this c h a = h a"
  by (simp add: collect_child_def Let_def)

lemma collect_child_frame: "frame h (collect_child this c h)"
  by (simp add: collect_child_def Let_def frame_upd_dirty_data)

lemma collect_child_data: "mData (collect_child this c h a) = mData (h a)"
  by (simp add: collect_child_def Let_def)

lemma collect_dirty_frame: "frame h (collect_dirty this h)"
  unfolding collect_dirty_def
  by (rule fold_inv [where P = "frame h"]) (auto intro: frame_trans collect_child_frame)

lemma collect_dirty_other: "a \<noteq> this \<Longrightarrow> collect_dirty this h a = h a"
  unfolding collect_dirty_def
  by (rule fold_inv [where P = "\<lambda>g. g a = h a"]) (simp_all add: collect_child_other)

lemma collect_dirty_data: "mData (collect_dirty this h a) = mData (h a)"
  unfolding collect_dirty_def
  by (rule fold_inv [where P = "\<lambda>g. mData (g a) = mData (h a)"]) (simp_all add: collect_child_data)

lemma clear_dirty_frame: "frame h (clear_dirty this h)"
  by (simp add: clear_dirty_def clear_def frame_upd_dirty_data fill_fields)

lemma clear_dirty_other: "a \<noteq> this \<Longrightarrow> clear_dirty this h a = h a"
  by (simp add: clear_dirty_def)

lemma blend_other: "a \<noteq> this \<Longrightarrow> fst (blend h this other r p) a = h a"
  by (simp add: blend_def Let_def)

lemma blend_frame: "frame h (fst (blend h this other r p))"
  by (simp add: blend_def Let_def frame_def)

lemma blend_child_frame: "frame h (blend_child this c h)"
  using blend_frame [of h this c]
  by (auto simp: blend_child_def Let_def frame_def)

lemma blend_child_dirty:
  "a \<noteq> this \<Longrightarrow>
     mDirty (blend_child this c h a)
       = (if a = c \<and> mVisible (h c) \<and> valid (mBounds (h c)) then Rect0 else mDirty (h a))"
  by (simp add: blend_child_def Let_def blend_other)

lemma blend_layers_frame: "frame h (blend_layers this h)"
  unfolding blend_layers_def
  by (rule fold_inv [where P = "frame h"]) (auto intro: frame_trans blend_child_frame)

lemma blend_fold_cleaned:
  "a \<noteq> this \<Longrightarrow> valid (mDirty (fold (blend_child this) cs h a)) \<Longrightarrow>
     mDirty (fold (blend_child this) cs h a) = mDirty (h a)"
proof (induction cs arbitrary: h)
  case Nil
  then show ?case by simp
next
  case (Cons c cs)
  from Cons.IH [of "blend_child this c h"] Cons.prems
  have "mDirty (fold (blend_child this) (c # cs) h a) = mDirty (blend_child this c h a)"
    by simp
  moreover from this Cons.prems have v: "valid (mDirty (blend_child this c h a))"
    by simp
  moreover have "mDirty (blend_child this c h a) = mDirty (h a)"
  proof (cases "a = c \<and> mVisible (h c) \<and> valid (mBounds (h c))")
    case True
    then show ?thesis using v Cons.prems(1) blend_child_dirty [of a this c h] by simp
  next
    case False
    then show ?thesis using Cons.prems(1) blend_child_dirty [of a this c h] by auto
  qed
  ultimately show ?case by simp
qed

lemma blend_fold_child_clean:
  "c \<in> set cs \<Longrightarrow> c \<noteq> this \<Longrightarrow> mVisible (h c) \<Longrightarrow> valid (mBounds (h c)) \<Longrightarrow>
     \<not> valid (mDirty (fold (blend_child this) cs h c))"
proof (induction cs arbitrary: h)
  case Nil
  then show ?case by simp
next
  case (Cons b cs)
  show ?case
  proof (cases "b = c")
    case True
    have "mDirty (blend_child this c h c) = Rect0"
      using Cons.prems by (simp add: blend_child_dirty)
    then show ?thesis
      using blend_fold_cleaned [of c this cs "blend_child this c h"] Cons.prems(2) True
      by auto
  next
    case False
    have "frame h (blend_child this b h)" by (rule blend_child_frame)
    then have "mVisible (blend_child this b h c)" "valid (mBounds (blend_child this b h c))"
      using Cons.prems by (simp_all add: frame_def)
    with Cons.IH [of "blend_child this b h"] Cons.prems False show ?thesis by simp
  qed
qed

lemma render_Suc:
  "render (Suc n) h this =
     (let h1 = collect_dirty this h in
      if \<not> valid (mDirty (h1 this)) then Some (h1, [])
      else
        (let h3 = blend_layers this (clear_dirty this h1)
         in case (case mParent (h3 this) of None \<Rightarrow> Some (h3, []) | Some p \<Rightarrow> render n h3 p) of
              None \<Rightarrow> None
            | Some (h4, t) \<Rightarrow>
                Some (h4(this := (h4 this)\<lparr>mDirty := Rect0\<rparr>), t @ [(this, mDirty (h4 this))])))"
  by simp

declare render.simps(2) [simp del]

lemma compose_frame: "frame h (blend_layers this (clear_dirty this (collect_dirty this h)))"
  by (meson frame_trans collect_dirty_frame clear_dirty_frame blend_layers_frame)

lemma compose_cleaned:
  assumes "a \<noteq> this" "valid (mDirty (blend_layers this (clear_dirty this (collect_dirty this h)) a))"
  shows "mDirty (blend_layers this (clear_dirty this (collect_dirty this h)) a) = mDirty (h a)"
  using assms blend_fold_cleaned [of a this _ "clear_dirty this (collect_dirty this h)"]
  by (simp add: blend_layers_def clear_dirty_other collect_dirty_other)

lemma render_frame_cleaned:
  "render n h this = Some (h', t) \<Longrightarrow> frame h h' \<and> cleaned h h'"
proof (induction n arbitrary: h this h' t)
  case 0
  then show ?case by simp
next
  case (Suc n)
  define h1 where "h1 = collect_dirty this h"
  define h3 where "h3 = blend_layers this (clear_dirty this h1)"
  show ?case
  proof (cases "valid (mDirty (h1 this))")
    case False
    then have "h' = h1" using Suc.prems by (simp add: render_Suc h1_def)
    moreover have "mDirty (h1 a) = mDirty (h a)" if "valid (mDirty (h1 a))" for a
      using that False collect_dirty_other [of a this h] by (cases "a = this") (auto simp: h1_def)
    ultimately show ?thesis
      using collect_dirty_frame [of h this] by (simp add: cleaned_def h1_def)
  next
    case True
    have f3: "frame h h3" unfolding h3_def h1_def by (rule compose_frame)
    have c3: "\<And>a. a \<noteq> this \<Longrightarrow> valid (mDirty (h3 a)) \<Longrightarrow> mDirty (h3 a) = mDirty (h a)"
      unfolding h3_def h1_def by (rule compose_cleaned)
    have eq: "render (Suc n) h this =
        (case (case mParent (h3 this) of None \<Rightarrow> Some (h3, []) | Some p \<Rightarrow> render n h3 p) of
           None \<Rightarrow> None
         | Some (h4, t) \<Rightarrow>
             Some (h4(this := (h4 this)\<lparr>mDirty := Rect0\<rparr>), t @ [(this, mDirty (h4 this))]))"
      unfolding render_Suc Let_def h1_def [symmetric] h3_def [symmetric] using True by simp
    obtain h4 t4 where r4: "(case mParent (h3 this) of None \<Rightarrow> Some (h3, []) | Some p \<Rightarrow> render n h3 p)
        = Some (h4, t4)" and h': "h' = h4(this := (h4 this)\<lparr>mDirty := Rect0\<rparr>)"
      using Suc.prems unfolding eq by (auto split: option.splits)
    have "frame h3 h4 \<and> cleaned h3 h4"
    proof (cases "mParent (h3 this)")
      case None
      then show ?thesis using r4 by (simp add: cleaned_def)
    next
      case (Some p)
      then show ?thesis using r4 Suc.IH [of h3 p h4 t4] by simp
    qed
    then have "frame h h4" and c4: "cleaned h3 h4"
      using f3 frame_trans by blast+
    then have "frame h h'" by (simp add: h' frame_def)
    moreover have "cleaned h h'"
      unfolding cleaned_def
    proof (intro allI impI)
      fix a assume v: "valid (mDirty (h' a))"
      then have ne: "a \<noteq> this" by (auto simp: h')
      then have "valid (mDirty (h4 a))" using v by (simp add: h')
      then have "mDirty (h4 a) = mDirty (h3 a)" "valid (mDirty (h3 a))"
        using c4 by (auto simp: cleaned_def)
      then show "mDirty (h' a) = mDirty (h a)" using c3 [OF ne] ne by (simp add: h')
    qed
    ultimately show ?thesis by simp
  qed
qed

lemma invalidate_keeps_valid: "valid (mDirty s) \<Longrightarrow> valid (mDirty (invalidate s r))"
  by (auto simp: invalidate_def valid_def boundingRect_def)

lemma invalidate_as_update: "invalidate s r = s\<lparr>mDirty := mDirty (invalidate s r)\<rparr>"
  by (simp add: invalidate_def)

lemma collect_child_keeps_valid:
  "valid (mDirty (h this)) \<Longrightarrow> valid (mDirty (collect_child this c h this))"
  by (simp add: collect_child_def Let_def invalidate_keeps_valid)

lemma collect_fold_keeps_valid:
  "valid (mDirty (h this)) \<Longrightarrow> valid (mDirty (fold (collect_child this) cs h this))"
  by (rule fold_inv [where P = "\<lambda>g. valid (mDirty (g this))"]) (simp_all add: collect_child_keeps_valid)

lemma collect_dirty_shape:
  "collect_dirty this h = h(this := (h this)\<lparr>mDirty := mDirty (collect_dirty this h this)\<rparr>)"
proof -
  have "\<exists>e. fold (collect_child this) cs h = h(this := (h this)\<lparr>mDirty := e\<rparr>)" for cs
  proof (rule fold_inv [where P = "\<lambda>g. \<exists>e. g = h(this := (h this)\<lparr>mDirty := e\<rparr>)"])
    fix c g assume "\<exists>e. g = h(this := (h this)\<lparr>mDirty := e\<rparr>)"
    then obtain e where g: "g = h(this := (h this)\<lparr>mDirty := e\<rparr>)" ..
    show "\<exists>e. collect_child this c g = h(this := (h this)\<lparr>mDirty := e\<rparr>)"
    proof (cases "mVisible (g c) \<and> valid (mDirty (g c))")
      case True
      then obtain r where "collect_child this c g = g(this := invalidate (g this) r)"
        by (simp add: collect_child_def Let_def)
      moreover have "g(this := invalidate (g this) r)
          = h(this := (h this)\<lparr>mDirty := mDirty (invalidate (g this) r)\<rparr>)"
        by (simp add: g invalidate_def)
      ultimately show ?thesis by metis
    next
      case False
      then have "collect_child this c g = g" by (auto simp: collect_child_def)
      then show ?thesis using g by auto
    qed
  next
    have "h = h(this := (h this)\<lparr>mDirty := mDirty (h this)\<rparr>)" by simp
    then show "\<exists>e. h = h(this := (h this)\<lparr>mDirty := e\<rparr>)" ..
  qed
  then obtain e where e: "collect_dirty this h = h(this := (h this)\<lparr>mDirty := e\<rparr>)"
    unfolding collect_dirty_def by blast
  then have "mDirty (collect_dirty this h this) = e" by simp
  with e show ?thesis by simp
qed

text \<open>Starting the first loop of \<open>render\<close> from another invalid dirty rectangle gives the
  same result, unless no child contributes.\<close>

lemma collect_fold_restart:
  assumes "\<not> valid (mDirty (h this))" "\<not> valid e"
  shows "fold (collect_child this) cs (h(this := (h this)\<lparr>mDirty := e\<rparr>))
           = fold (collect_child this) cs h \<or>
         (fold (collect_child this) cs (h(this := (h this)\<lparr>mDirty := e\<rparr>))
            = h(this := (h this)\<lparr>mDirty := e\<rparr>) \<and>
          fold (collect_child this) cs h = h)"
proof (induction cs)
  case Nil
  then show ?case by simp
next
  case (Cons c cs)
  define g where "g = h(this := (h this)\<lparr>mDirty := e\<rparr>)"
  show ?case
  proof (cases "mVisible (h c) \<and> valid (mDirty (h c))")
    case True
    with assms have ne: "c \<noteq> this" by auto
    then have gc: "g c = h c" by (simp add: g_def)
    define r where "r = Rect4 (px (rtop (mDirty (h c))) + px (mPos (h c)))
        (py (rtop (mDirty (h c))) + py (mPos (h c))) (px (rbottom (mDirty (h c))) + px (mPos (h c)))
        (py (rbottom (mDirty (h c))) + py (mPos (h c)))"
    have ch: "collect_child this c h = h(this := invalidate (h this) r)"
      using True by (simp add: collect_child_def Let_def r_def)
    have cg: "collect_child this c g = g(this := invalidate (g this) r)"
      using True gc by (simp add: collect_child_def Let_def r_def)
    have "invalidate (g this) r = invalidate (h this) r"
      using assms by (simp add: invalidate_def g_def)
    moreover have "g(this := invalidate (h this) r) = h(this := invalidate (h this) r)"
      by (simp add: g_def)
    ultimately have "collect_child this c g = collect_child this c h"
      by (simp add: ch cg)
    then have "fold (collect_child this) (c # cs) g = fold (collect_child this) (c # cs) h"
      by simp
    then show ?thesis unfolding g_def by (rule disjI1)
  next
    case False
    then have hh: "collect_child this c h = h" by (auto simp: collect_child_def)
    have "\<not> (mVisible (g c) \<and> valid (mDirty (g c)))"
      using False assms by (cases "c = this") (auto simp: g_def)
    then have gg: "collect_child this c g = g" by (auto simp: collect_child_def)
    have "fold (collect_child this) (c # cs) g = fold (collect_child this) cs g"
      "fold (collect_child this) (c # cs) h = fold (collect_child this) cs h"
      by (simp_all add: hh gg)
    then show ?thesis using Cons.IH unfolding g_def by metis
  qed
qed

lemma collect_dirty_idem:
  assumes "\<not> valid (mDirty (collect_dirty this h this))"
  shows "collect_dirty this (collect_dirty this h) = collect_dirty this h"
proof -
  define g where "g = collect_dirty this h"
  have inv: "\<not> valid (mDirty (h this))"
    using assms collect_fold_keeps_valid [of h this] by (auto simp: collect_dirty_def)
  have g: "g = h(this := (h this)\<lparr>mDirty := mDirty (g this)\<rparr>)"
    unfolding g_def by (rule collect_dirty_shape)
  have l: "layers (g this) = layers (h this)"
    using collect_dirty_frame [of h this] by (simp add: g_def frame_layers)
  have gh: "fold (collect_child this) (layers (h this)) h = g"
    by (simp add: g_def collect_dirty_def)
  have "\<not> valid (mDirty (g this))" using assms by (simp add: g_def)
  from collect_fold_restart [of h this "mDirty (g this)" "layers (h this)", OF inv this]
  have "fold (collect_child this) (layers (h this)) g = g"
    using gh g by metis
  moreover have "collect_dirty this g = fold (collect_child this) (layers (h this)) g"
    by (simp add: collect_dirty_def l)
  ultimately show ?thesis by (simp add: g_def)
qed

lemma collect_dirty_noop:
  "\<forall>c \<in> set (layers (h this)). \<not> (mVisible (h c) \<and> valid (mDirty (h c))) \<Longrightarrow>
     collect_dirty this h = h"
  unfolding collect_dirty_def
  by (rule fold_id [where P = "\<lambda>g. g = h"]) (auto simp: collect_child_def)

text \<open>After a \<open>render\<close> that found something to do, every visible child with valid bounds
  is clean.\<close>

lemma render_cleans_children:
  assumes r: "render n h this = Some (h', t)"
    and v: "valid (mDirty (collect_dirty this h this))"
    and c: "c \<in> set (layers (h this))" "mVisible (h c)" "valid (mBounds (h c))"
  shows "\<not> valid (mDirty (h' c))"
proof (cases n)
  case 0
  then show ?thesis using r by simp
next
  case (Suc m)
  define h1 where "h1 = collect_dirty this h"
  define h2 where "h2 = clear_dirty this h1"
  define h3 where "h3 = blend_layers this h2"
  have eq: "render (Suc m) h this =
      (case (case mParent (h3 this) of None \<Rightarrow> Some (h3, []) | Some p \<Rightarrow> render m h3 p) of
         None \<Rightarrow> None
       | Some (h4, t) \<Rightarrow>
           Some (h4(this := (h4 this)\<lparr>mDirty := Rect0\<rparr>), t @ [(this, mDirty (h4 this))]))"
    unfolding render_Suc Let_def h1_def [symmetric] h2_def [symmetric] h3_def [symmetric]
    using v by (simp add: h1_def)
  obtain h4 t4 where r4: "(case mParent (h3 this) of None \<Rightarrow> Some (h3, []) | Some p \<Rightarrow> render m h3 p)
      = Some (h4, t4)" and h': "h' = h4(this := (h4 this)\<lparr>mDirty := Rect0\<rparr>)"
    using r unfolding Suc eq by (auto split: option.splits)
  show ?thesis
  proof (cases "c = this")
    case True
    then show ?thesis by (simp add: h')
  next
    case False
    have f2: "frame h h2"
      unfolding h2_def h1_def by (meson frame_trans collect_dirty_frame clear_dirty_frame)
    then have "c \<in> set (layers (h2 this))" "mVisible (h2 c)" "valid (mBounds (h2 c))"
      using c by (simp_all add: frame_def layers_def)
    then have c3: "\<not> valid (mDirty (h3 c))"
      using False unfolding h3_def blend_layers_def by (intro blend_fold_child_clean)
    have "cleaned h3 h4"
    proof (cases "mParent (h3 this)")
      case None
      then show ?thesis using r4 by (simp add: cleaned_def)
    next
      case (Some p)
      then show ?thesis using r4 render_frame_cleaned [of m h3 p h4 t4] by simp
    qed
    then have "\<not> valid (mDirty (h4 c))" using c3 by (auto simp: cleaned_def)
    then show ?thesis using False by (simp add: h')
  qed
qed

lemma render_early:
  "\<not> valid (mDirty (collect_dirty this h this)) \<Longrightarrow>
     render (Suc n) h this = Some (collect_dirty this h, [])"
  by (simp add: render_Suc)

lemma render_dirty_invalid:
  assumes "render n h this = Some (h', t)"
  shows "\<not> valid (mDirty (h' this))"
proof (cases n)
  case 0
  then show ?thesis using assms by simp
next
  case (Suc m)
  show ?thesis
  proof (cases "valid (mDirty (collect_dirty this h this))")
    case True
    then show ?thesis
      using assms unfolding Suc render_Suc Let_def by (auto split: option.splits)
  next
    case False
    then show ?thesis using assms by (simp add: Suc render_early)
  qed
qed


named_theorems ev

declare addLayer_pos_def [ev] addLayer_def [ev] invalidate_def [ev] invalidate_all_def [ev]
  bounds_def [ev] move_r_def [ev] intersect_def [ev] boundingRect_def [ev] Rect4_def [ev]
  Rect0_def [ev] valid_def [ev] Let_def [ev] layers_def [ev] Surface_new_eq [ev]
  width_def [ev] height_def [ev] size_r_def [ev] contains_def [ev]

lemma upd_dirty_same: "mDirty s = d \<Longrightarrow> s\<lparr>mDirty := d\<rparr> = s"
  by auto

lemma chain_ends_frame: "frame h h' \<Longrightarrow> chain_ends k h' a = chain_ends k h a"
  by (induction k arbitrary: a) (auto simp: frame_def split: option.splits)

lemma render_returns: "chain_ends k h this \<Longrightarrow> render (Suc k) h this \<noteq> None"
proof (induction k arbitrary: h this)
  case 0
  have "mParent (blend_layers this (clear_dirty this (collect_dirty this h)) this) = None"
    using 0 compose_frame [of h this] by (simp add: frame_def)
  then show ?case unfolding render_Suc Let_def by simp
next
  case (Suc k)
  define h3 where "h3 = blend_layers this (clear_dirty this (collect_dirty this h))"
  have f: "frame h h3" unfolding h3_def by (rule compose_frame)
  have "render (Suc k) h3 p \<noteq> None" if "mParent (h3 this) = Some p" for p
  proof -
    have "mParent (h this) = Some p" using that f by (simp add: frame_def)
    then have "chain_ends k h p" using Suc.prems by simp
    then have "chain_ends k h3 p" using f by (simp add: chain_ends_frame)
    then show ?thesis by (rule Suc.IH)
  qed
  then show ?case
    unfolding render_Suc [of "Suc k"] Let_def h3_def [symmetric]
    by (auto split: option.splits)
qed

lemma ex_clean_root_reached:
  "render (Suc 0) (Surface_new store0 10 10 10) 10 = Some (ex_clean_root, [(10, Rect4 0 0 10 10)])"
  by (simp add: render_Suc collect_dirty_def layers_def Surface_new_eq clear_dirty_def
      blend_layers_def ex_clean_root_def Let_def)

lemma ex_far_10:
  "mBounds (ex_far 10) = Rect4 0 0 10 10" "mDirty (ex_far 10) = Rect4 0 0 10 10"
  "mLayerMap (ex_far 10) = [(0, [20])]" "mParent (ex_far 10) = None"
  by (simp_all add: ex_far_def ev)

lemma ex_far_20:
  "mBounds (ex_far 20) = Rect4 0 0 2 2" "mDirty (ex_far 20) = Rect4 0 0 2 2"
  "mPos (ex_far 20) = \<lparr>px = 20, py = 20\<rparr>" "mVisible (ex_far 20)" "mParent (ex_far 20) = Some 10"
  by (simp_all add: ex_far_def ev)

lemma ex_outside_10:
  "mBounds (ex_outside 10) = Rect4 0 0 10 10" "mDirty (ex_outside 10) = Rect4 20 20 10 10"
  "mLayerMap (ex_outside 10) = [(0, [20])]" "mParent (ex_outside 10) = None"
  by (simp_all add: ex_outside_def ex_clean_root_def ev)

lemma ex_outside_20:
  "mBounds (ex_outside 20) = Rect4 0 0 2 2" "mDirty (ex_outside 20) = Rect4 0 0 2 2"
  "mPos (ex_outside 20) = \<lparr>px = 20, py = 20\<rparr>" "mVisible (ex_outside 20)"
  by (simp_all add: ex_outside_def ex_clean_root_def ev)





text \<open>C1, as amended. Let every visible child of the surface with a valid dirty region
  have valid bounds. If \<open>render\<close> returns, then the dirty region of the surface is invalid,
  and a second \<open>render\<close> right after it returns the store exactly as it found it (no cell of
  any buffer changes, the dirty region stays invalid), with an empty trace (no \<open>renderDone\<close>)
  and without recursing to the parent (it returns at call depth 1). Nothing is said about
  the dirty regions of the children.\<close>

theorem C1_render_twice:
  assumes r: "render n h this = Some (h1, t1)"
    and ok: "\<forall>c \<in> set (layers (h this)). mVisible (h c) \<and> valid (mDirty (h c)) \<longrightarrow> valid (mBounds (h c))"
  shows "\<not> valid (mDirty (h1 this)) \<and> render (Suc m) h1 this = Some (h1, [])"
proof -
  have inv: "\<not> valid (mDirty (h1 this))" using r by (rule render_dirty_invalid)
  obtain k where n: "n = Suc k" using r by (cases n) auto
  have "collect_dirty this h1 = h1"
  proof (cases "valid (mDirty (collect_dirty this h this))")
    case False
    then have "h1 = collect_dirty this h" using r by (simp add: n render_early)
    then show ?thesis using False by (simp add: collect_dirty_idem)
  next
    case True
    have fc: "frame h h1" "cleaned h h1" using render_frame_cleaned [OF r] by simp_all
    have "\<not> (mVisible (h1 c) \<and> valid (mDirty (h1 c)))" if c: "c \<in> set (layers (h this))" for c
    proof
      assume a: "mVisible (h1 c) \<and> valid (mDirty (h1 c))"
      then have vis: "mVisible (h c)" using fc(1) by (simp add: frame_def)
      have "\<not> valid (mBounds (h c))"
        using render_cleans_children [OF r True c vis] a by blast
      moreover have "mDirty (h1 c) = mDirty (h c)" using a fc(2) by (simp add: cleaned_def)
      ultimately show False using ok c vis a by auto
    qed
    then show ?thesis using fc(1) by (intro collect_dirty_noop) (simp add: frame_layers)
  qed
  then have "render (Suc m) h1 this = Some (h1, [])"
    using inv render_early [of this h1 m] by simp
  with inv show ?thesis by simp
qed

text \<open>C1 as stated fails: on \<open>ex_outside\<close> the first \<open>render\<close> returns at the "nothing to
  update" test and leaves the store as it is, so the second call starts with a visible
  child whose dirty region is valid.\<close>

theorem C1_counterexample:
  "render (Suc 0) ex_outside 10 = Some (ex_outside, []) \<and>
   20 \<in> set (layers (ex_outside 10)) \<and> mVisible (ex_outside 20) \<and> valid (mDirty (ex_outside 20))"
proof -
  have "invalidate (ex_outside 10) (Rect4 20 20 22 22) = ex_outside 10"
    by (rule trans [OF _ upd_dirty_same [of _ "Rect4 20 20 10 10"]])
       (simp_all add: invalidate_def ex_outside_10 intersect_def Rect4_def valid_def)
  then have "collect_child 10 20 ex_outside = ex_outside"
    by (simp add: collect_child_def ex_outside_20 Rect4_def)
  then have "collect_dirty 10 ex_outside = ex_outside"
    by (simp add: collect_dirty_def layers_def ex_outside_10)
  then have "render (Suc 0) ex_outside 10 = Some (ex_outside, [])"
    using render_early [of 10 ex_outside 0] by (simp add: ex_outside_10)
  then show ?thesis by (simp add: layers_def ex_outside_10 ex_outside_20)
qed

text \<open>The amended C1 on \<open>ex_far\<close>.\<close>

theorem C1_witness:
  "render (Suc 0) ex_far 10 \<noteq> None \<and>
   \<not> valid (mDirty (fst (the (render (Suc 0) ex_far 10)) 10)) \<and>
   render (Suc 0) (fst (the (render (Suc 0) ex_far 10))) 10
     = Some (fst (the (render (Suc 0) ex_far 10)), [])"
proof -
  have ok: "\<forall>c \<in> set (layers (ex_far 10)).
      mVisible (ex_far c) \<and> valid (mDirty (ex_far c)) \<longrightarrow> valid (mBounds (ex_far c))"
    by (simp add: layers_def ex_far_10 ex_far_20)
  have "chain_ends 0 ex_far 10" by (simp add: ex_far_10)
  then have ne: "render (Suc 0) ex_far 10 \<noteq> None" by (rule render_returns)
  then obtain h1 t1 where r: "render (Suc 0) ex_far 10 = Some (h1, t1)" by auto
  from C1_render_twice [OF r ok, of 0] ne show ?thesis by (simp add: r)
qed

section \<open>Dirty regions and bounds\<close>

lemma ex_resized_10:
  "mBounds (ex_resized 10) = Rect4 0 0 5 5" "mDirty (ex_resized 10) = Rect4 0 0 10 10"
  "mData (ex_resized 10) = replicate 25 blank"
  by (simp_all add: ex_resized_def resize_def clear_def fill_def ignoring_def ev)

text \<open>C4. The invariant "a valid dirty rectangle lies within the bounds" is not preserved by
  \<open>resize\<close>: a surface constructed 10 by 10 is entirely dirty; \<open>resize(5, 5)\<close> sets the
  bounds to (0, 0, 5, 5), and its \<open>clear()\<close> accumulates into the old dirty rectangle, which
  stays (0, 0, 10, 10), valid and outside the new bounds.\<close>

theorem C4_resize_breaks_dirty_within_bounds:
  "mBounds (ex_resized 10) = Rect4 0 0 5 5 \<and> mDirty (ex_resized 10) = Rect4 0 0 10 10 \<and>
   valid (mDirty (ex_resized 10)) \<and> \<not> contains (mBounds (ex_resized 10)) (mDirty (ex_resized 10))"
  by (simp add: ex_resized_10 ev)

text \<open>C3. On the surface left by that \<open>resize\<close>, \<open>invalidate()\<close> returns the bounds
  (0, 0, 5, 5), which do not contain the previous valid dirty rectangle (0, 0, 10, 10): the
  dirty region shrinks without having been cleared.\<close>

theorem C3_invalidate_shrinks_stale_dirty:
  "mDirty (ex_resized 10) = Rect4 0 0 10 10 \<and> valid (mDirty (ex_resized 10)) \<and>
   mDirty (invalidate_all (ex_resized 10)) = Rect4 0 0 5 5 \<and>
   \<not> contains (mDirty (invalidate_all (ex_resized 10))) (mDirty (ex_resized 10))"
  by (simp add: ex_resized_10 ev)

text \<open>Apart from that, invalidation only grows the dirty region: \<open>invalidate(bounds)\<close> and
  \<open>invalidate(start, end)\<close> on every surface, \<open>invalidate()\<close> on every surface whose dirty
  rectangle lies within its bounds.\<close>

lemma invalidate_grows:
  "cells (mDirty s) \<union> (cells r \<inter> cells (mBounds s)) \<subseteq> cells (mDirty (invalidate s r))"
  "valid (mDirty s) \<Longrightarrow> contains (mDirty (invalidate s r)) (mDirty s)"
proof -
  show "cells (mDirty s) \<union> (cells r \<inter> cells (mBounds s)) \<subseteq> cells (mDirty (invalidate s r))"
  proof (cases "valid (mDirty s)")
    case True
    then show ?thesis
      using cells_boundingRect [of "mDirty s" "intersect (mBounds s) r"]
      by (auto simp: invalidate_def cells_intersect)
  next
    case False
    then have "cells (mDirty s) = {}" by (simp add: valid_cells)
    then show ?thesis using False by (auto simp: invalidate_def cells_intersect)
  qed
  show "valid (mDirty s) \<Longrightarrow> contains (mDirty (invalidate s r)) (mDirty s)"
    by (simp add: invalidate_def contains_def boundingRect_def)
qed

lemma invalidate_range_grows:
  assumes "invalidate_range s i j = Some s'"
  shows "cells (mDirty s) \<subseteq> cells (mDirty s')"
    and "valid (mDirty s) \<Longrightarrow> contains (mDirty s') (mDirty s)"
proof -
  obtain r where "s' = invalidate s r"
    using assms by (auto simp: invalidate_range_def split: option.splits)
  then show "cells (mDirty s) \<subseteq> cells (mDirty s')"
    and "valid (mDirty s) \<Longrightarrow> contains (mDirty s') (mDirty s)"
    using invalidate_grows [of s r] by auto
qed

lemma invalidate_all_grows:
  "cells (mBounds s) \<subseteq> cells (mDirty (invalidate_all s))"
  "dirty_ok s \<Longrightarrow> valid (mDirty s) \<Longrightarrow> contains (mDirty (invalidate_all s)) (mDirty s)"
  by (simp_all add: invalidate_all_def dirty_ok_def)

text \<open>Every operation other than \<open>resize\<close> keeps valid dirty rectangles within the
  bounds.\<close>

lemma dirty_ok_invalidate: "dirty_ok s \<Longrightarrow> dirty_ok (invalidate s r)"
  by (auto simp: dirty_ok_def invalidate_def contains_def boundingRect_def intersect_def)

lemma dirty_ok_invalidate_all: "dirty_ok (invalidate_all s)"
  by (simp add: dirty_ok_def invalidate_all_def contains_def)

lemma dirty_ok_invalidate_range: "dirty_ok s \<Longrightarrow> invalidate_range s i j = Some s' \<Longrightarrow> dirty_ok s'"
  by (auto simp: invalidate_range_def dirty_ok_invalidate split: option.splits)

lemma dirty_ok_cong:
  "mDirty s' = mDirty s \<Longrightarrow> mBounds s' = mBounds s \<Longrightarrow> dirty_ok s' = dirty_ok s"
  by (simp add: dirty_ok_def)

lemma dirty_ok_fill: "dirty_ok s \<Longrightarrow> dirty_ok (ignoring s (fill s p c))"
  by (auto simp: fill_def ignoring_def Let_def intro!: dirty_ok_invalidate
      simp: dirty_ok_cong [of "s\<lparr>mData := d\<rparr>" s for d])

lemma dirty_ok_clean: "dirty_ok (s\<lparr>mDirty := Rect0\<rparr>)"
  by (simp add: dirty_ok_def)

lemma dirty_ok_fields [simp]:
  "dirty_ok (s\<lparr>mLayerMap := m\<rparr>) = dirty_ok s" "dirty_ok (s\<lparr>mParent := q\<rparr>) = dirty_ok s"
  "dirty_ok (s\<lparr>mPos := pos\<rparr>) = dirty_ok s" "dirty_ok (s\<lparr>mVisible := b\<rparr>) = dirty_ok s"
  "dirty_ok (s\<lparr>mData := d\<rparr>) = dirty_ok s"
  by (simp_all add: dirty_ok_def)

lemma dirty_ok_show: "dirty_ok (show_s s)"
  by (simp add: show_s_def dirty_ok_invalidate_all)

lemma dirty_ok_blend:
  "\<forall>a. dirty_ok (h a) \<Longrightarrow> dirty_ok (fst (blend h this other r p) a)"
  by (simp add: blend_def Let_def dirty_ok_invalidate)

lemma dirty_ok_addLayer:
  "\<forall>a. dirty_ok (h a) \<Longrightarrow> dirty_ok (fst (addLayer h this sf Z) a)"
  "\<forall>a. dirty_ok (h a) \<Longrightarrow> dirty_ok (fst (addLayer_pos h this sf pos Z) a)"
  by (simp_all add: addLayer_def addLayer_pos_def Let_def dirty_ok_invalidate)

lemma dirty_ok_removeLayer:
  "\<forall>a. dirty_ok (h a) \<Longrightarrow> dirty_ok (fst (removeLayer h this sf) a)"
  by (simp add: removeLayer_def Let_def dirty_ok_invalidate split: option.splits)

lemma dirty_ok_moveLayer:
  "\<forall>a. dirty_ok (h a) \<Longrightarrow> dirty_ok (fst (moveLayer h this sf Z) a)"
  by (simp add: moveLayer_def Let_def dirty_ok_invalidate split: option.splits)

lemma dirty_ok_invalidate_in_parent:
  "\<forall>a. dirty_ok (h a) \<Longrightarrow> dirty_ok (invalidate_in_parent h this p a)"
  by (simp add: invalidate_in_parent_def Let_def dirty_ok_invalidate dirty_ok_invalidate_all)

lemma dirty_ok_hide: "\<forall>a. dirty_ok (h a) \<Longrightarrow> dirty_ok (hide h this a)"
  by (simp add: hide_def Let_def dirty_ok_invalidate_in_parent split: option.splits)

lemma dirty_ok_move:
  "\<forall>a. dirty_ok (h a) \<Longrightarrow> dirty_ok (fst (move h this pos) a)"
  by (simp add: move_def Let_def dirty_ok_invalidate_in_parent split: option.splits)

lemma dirty_ok_move_Z:
  "\<forall>a. dirty_ok (h a) \<Longrightarrow> dirty_ok (fst (move_Z h this pos Z) a)"
  by (simp add: move_Z_def Let_def dirty_ok_invalidate_in_parent dirty_ok_moveLayer
      split: option.splits)

lemma dirty_ok_moveZ:
  "\<forall>a. dirty_ok (h a) \<Longrightarrow> dirty_ok (fst (moveZ h this Z) a)"
proof (cases "mParent (h this)")
  case None
  assume "\<forall>a. dirty_ok (h a)"
  with None show ?thesis by (simp add: moveZ_def)
next
  case (Some p)
  assume "\<forall>a. dirty_ok (h a)"
  then have "\<forall>a. dirty_ok ((h(this := invalidate_all (h this))) a)"
    by (simp add: dirty_ok_invalidate_all)
  then show ?thesis using Some by (simp add: moveZ_def dirty_ok_moveLayer)
qed

lemma dirty_ok_collect_child:
  "\<forall>a. dirty_ok (h a) \<Longrightarrow> \<forall>a. dirty_ok (collect_child this c h a)"
  by (simp add: collect_child_def Let_def dirty_ok_invalidate)

lemma dirty_ok_blend_child:
  "\<forall>a. dirty_ok (h a) \<Longrightarrow> \<forall>a. dirty_ok (blend_child this c h a)"
  by (simp add: blend_child_def Let_def dirty_ok_blend dirty_ok_clean)

lemma dirty_ok_compose:
  assumes "\<forall>a. dirty_ok (h a)"
  shows "\<forall>a. dirty_ok (collect_dirty this h a)"
    and "\<forall>a. dirty_ok (blend_layers this (clear_dirty this (collect_dirty this h)) a)"
proof -
  show 1: "\<forall>a. dirty_ok (collect_dirty this h a)"
    unfolding collect_dirty_def
    by (rule fold_inv [where P = "\<lambda>g. \<forall>a. dirty_ok (g a)"])
       (use assms dirty_ok_collect_child in auto)
  then have "\<forall>a. dirty_ok (clear_dirty this (collect_dirty this h) a)"
    by (simp add: clear_dirty_def clear_def dirty_ok_fill)
  then show "\<forall>a. dirty_ok (blend_layers this (clear_dirty this (collect_dirty this h)) a)"
    unfolding blend_layers_def
    by (intro fold_inv [where P = "\<lambda>g. \<forall>a. dirty_ok (g a)"])
       (use dirty_ok_blend_child in auto)
qed

lemma dirty_ok_render:
  "render n h this = Some (h', t) \<Longrightarrow> \<forall>a. dirty_ok (h a) \<Longrightarrow> \<forall>a. dirty_ok (h' a)"
proof (induction n arbitrary: h this h' t)
  case 0
  then show ?case by simp
next
  case (Suc n)
  define h3 where "h3 = blend_layers this (clear_dirty this (collect_dirty this h))"
  have ok3: "\<forall>a. dirty_ok (h3 a)" unfolding h3_def using Suc.prems(2) by (rule dirty_ok_compose)
  show ?case
  proof (cases "valid (mDirty (collect_dirty this h this))")
    case False
    then have "h' = collect_dirty this h" using Suc.prems(1) by (simp add: render_early)
    then show ?thesis using dirty_ok_compose(1) [OF Suc.prems(2)] by simp
  next
    case True
    then obtain h4 t4 where r4:
      "(case mParent (h3 this) of None \<Rightarrow> Some (h3, []) | Some p \<Rightarrow> render n h3 p) = Some (h4, t4)"
      and h': "h' = h4(this := (h4 this)\<lparr>mDirty := Rect0\<rparr>)"
      using Suc.prems(1) unfolding render_Suc Let_def h3_def [symmetric]
      by (auto split: option.splits)
    have "\<forall>a. dirty_ok (h4 a)"
    proof (cases "mParent (h3 this)")
      case None
      then show ?thesis using r4 ok3 by simp
    next
      case (Some p)
      then show ?thesis using r4 ok3 Suc.IH [of h3 p h4 t4] by simp
    qed
    then show ?thesis by (simp add: h' dirty_ok_clean)
  qed
qed

section \<open>Buffers\<close>

lemma length_cond_write [simp]: "length (cond_write idx wr k b) = length b"
  by (simp add: cond_write_def split: option.splits)

lemma length_fold_cond_write [simp]: "length (fold (cond_write idx wr) ks b) = length b"
  by (induction ks arbitrary: b) simp_all

lemma fold_cond_write_other:
  "(\<And>k. k \<in> set ks \<Longrightarrow> wr k \<noteq> None \<Longrightarrow> idx k \<noteq> i) \<Longrightarrow>
     fold (cond_write idx wr) ks b ! i = b ! i"
proof (induction ks arbitrary: b)
  case Nil
  then show ?case by simp
next
  case (Cons a ks)
  have "fold (cond_write idx wr) ks (cond_write idx wr a b) ! i = cond_write idx wr a b ! i"
    using Cons.prems by (intro Cons.IH) simp_all
  also have "\<dots> = b ! i"
    using Cons.prems [of a] by (auto simp: cond_write_def split: option.splits)
  finally show ?case by simp
qed

lemma fold_cond_write_hit:
  assumes "k \<in> set ks" "wr k = Some v" "idx k < length b"
    and "\<And>k'. k' \<in> set ks \<Longrightarrow> wr k' \<noteq> None \<Longrightarrow> idx k' = idx k \<Longrightarrow> k' = k"
  shows "fold (cond_write idx wr) ks b ! idx k = v"
  using assms(1,4)
proof (induction ks rule: rev_induct)
  case Nil
  then show ?case by simp
next
  case (snoc a ks)
  show ?case
  proof (cases "a = k")
    case True
    have "cond_write idx wr k c = c[idx k := v]" for c
      by (simp add: cond_write_def assms(2))
    then show ?thesis using assms(3) True by simp
  next
    case False
    then have k: "k \<in> set ks" using snoc.prems(1) by simp
    have ih: "fold (cond_write idx wr) ks b ! idx k = v"
      using k snoc.prems(2) by (intro snoc.IH) simp_all
    have "wr a \<noteq> None \<Longrightarrow> idx a \<noteq> idx k"
      using snoc.prems(2) [of a] False by auto
    then have "cond_write idx wr a c ! idx k = c ! idx k" for c
      by (auto simp: cond_write_def split: option.splits)
    then show ?thesis using ih by simp
  qed
qed

lemma fold_rows:
  "fold (\<lambda>cy. fold (f cy) xs) ys b = fold (\<lambda>(cy, cx). f cy cx) (List.product ys xs) b"
proof (induction ys arbitrary: b)
  case Nil
  then show ?case by simp
next
  case (Cons a ys)
  have "fold (\<lambda>(cy, cx). f cy cx) (map (Pair a) xs) b = fold (f a) xs b"
    by (simp add: fold_map comp_def)
  then show ?case using Cons by simp
qed

text \<open>The loops of \<open>fill\<close> and of \<open>blend\<close> (when source and destination differ) as conditional
  writes over the cells of a rectangle.\<close>

lemma fill_rect_cond_write:
  "fill_rect bnds dirty pattern buf =
     fold (cond_write (\<lambda>k. offset bnds (cell_at dirty k)) (\<lambda>k. Some pattern))
       (List.product [0..<height dirty] [0..<width dirty]) buf"
proof -
  have "fill_cell bnds dirty pattern cy cx
      = cond_write (\<lambda>k. offset bnds (cell_at dirty k)) (\<lambda>k. Some pattern) (cy, cx)" for cy cx
    by (rule ext) (simp add: fill_cell_def cond_write_def cell_at_def)
  then show ?thesis
    by (simp add: fill_rect_def fold_rows case_prod_unfold)
qed

lemma blend_rect_cond_write:
  "blend_rect False src sb s_crop db d_crop dst =
     fold (cond_write (\<lambda>k. offset db (cell_at d_crop k)) (blend_src src sb s_crop))
       (List.product [0..<height d_crop] [0..<width d_crop]) dst"
proof -
  have "blend_cell False src sb s_crop db d_crop cy cx
      = cond_write (\<lambda>k. offset db (cell_at d_crop k)) (blend_src src sb s_crop) (cy, cx)" for cy cx
    by (rule ext) (simp add: blend_cell_def cond_write_def cell_at_def blend_src_def Let_def)
  then show ?thesis
    by (simp add: blend_rect_def fold_rows case_prod_unfold)
qed

text \<open>Offsets in a buffer anchored at the origin.\<close>

lemma offset_origin:
  "0 \<le> px p \<Longrightarrow> 0 \<le> py p \<Longrightarrow> 0 \<le> W \<Longrightarrow>
     offset (Rect4 0 0 W H) p = nat (py p) * nat W + nat (px p)"
  by (simp add: offset_def index_for_def Rect4_def width_def nat_add_distrib nat_mult_distrib)

lemma row_major_inj:
  fixes a b a' b' n :: nat
  assumes "a < n" "a' < n" "b * n + a = b' * n + a'"
  shows "a = a' \<and> b = b'"
proof -
  have "(b * n + a) mod n = a" "(b' * n + a') mod n = a'" using assms(1,2) by simp_all
  then have "a = a'" using assms(3) by metis
  moreover have "(b * n + a) div n = b" "(b' * n + a') div n = b'" using assms(1,2) by simp_all
  then have "b = b'" using assms(3) by metis
  ultimately show ?thesis by simp
qed

lemma cells_Rect4 [simp]:
  "(cx, cy) \<in> cells (Rect4 tx ty bx by) \<longleftrightarrow> tx \<le> cx \<and> cx < bx \<and> ty \<le> cy \<and> cy < by"
  by (simp add: cells_def Rect4_def)

lemma offset_inj:
  assumes "(px p, py p) \<in> cells (Rect4 0 0 W H)" "(px q, py q) \<in> cells (Rect4 0 0 W H)"
    and "offset (Rect4 0 0 W H) p = offset (Rect4 0 0 W H) q"
  shows "p = q"
proof -
  have "nat (py p) * nat W + nat (px p) = nat (py q) * nat W + nat (px q)"
    using assms by (simp add: offset_origin)
  moreover have "nat (px p) < nat W" "nat (px q) < nat W" using assms(1,2) by simp_all
  ultimately have "nat (px p) = nat (px q) \<and> nat (py p) = nat (py q)"
    using row_major_inj [of "nat (px p)" "nat W" "nat (px q)" "nat (py p)" "nat (py q)"] by simp
  then show ?thesis using assms(1,2) by (intro Point.equality) auto
qed

lemma cell_at_inside:
  "k \<in> set (List.product [0..<height r] [0..<width r]) \<Longrightarrow>
     (px (cell_at r k), py (cell_at r k)) \<in> cells r"
  by (cases k) (auto simp: cell_at_def cells_def width_def height_def)

lemma cell_at_of_point:
  assumes "(cx, cy) \<in> cells r"
  shows "(nat (cy - py (rtop r)), nat (cx - px (rtop r))) \<in> set (List.product [0..<height r] [0..<width r])"
    and "cell_at r (nat (cy - py (rtop r)), nat (cx - px (rtop r))) = \<lparr>px = cx, py = cy\<rparr>"
  using assms by (auto simp: cell_at_def cells_def width_def height_def)

lemma cell_at_inj: "cell_at r k = cell_at r k' \<Longrightarrow> k = k'"
  by (cases k, cases k') (simp add: cell_at_def)

text \<open>What a loop over the cells of \<open>r\<close> leaves at the offset of a point of the buffer.\<close>

lemma rect_writes_nth:
  assumes r: "contains (Rect4 0 0 W H) r"
    and len: "length buf = size_r (Rect4 0 0 W H)"
    and p: "(cx, cy) \<in> cells (Rect4 0 0 W H)"
  shows "fold (cond_write (\<lambda>k. offset (Rect4 0 0 W H) (cell_at r k)) wr)
           (List.product [0..<height r] [0..<width r]) buf ! offset (Rect4 0 0 W H) \<lparr>px = cx, py = cy\<rparr>
         = (if (cx, cy) \<in> cells r
            then (case wr (nat (cy - py (rtop r)), nat (cx - px (rtop r))) of
                    Some v \<Rightarrow> v
                  | None \<Rightarrow> buf ! offset (Rect4 0 0 W H) \<lparr>px = cx, py = cy\<rparr>)
            else buf ! offset (Rect4 0 0 W H) \<lparr>px = cx, py = cy\<rparr>)"
proof -
  let ?B = "Rect4 0 0 W H"
  let ?ks = "List.product [0..<height r] [0..<width r]"
  let ?idx = "\<lambda>k. offset ?B (cell_at r k)"
  let ?i = "offset ?B \<lparr>px = cx, py = cy\<rparr>"
  have inB: "(px (cell_at r k), py (cell_at r k)) \<in> cells ?B" if "k \<in> set ?ks" for k
    using cell_at_inside [OF that] contains_cells [OF r] by auto
  have pB: "(px \<lparr>px = cx, py = cy\<rparr>, py \<lparr>px = cx, py = cy\<rparr>) \<in> cells ?B" using p by simp
  show ?thesis
  proof (cases "(cx, cy) \<in> cells r")
    case True
    define k where "k = (nat (cy - py (rtop r)), nat (cx - px (rtop r)))"
    have k: "k \<in> set ?ks" "cell_at r k = \<lparr>px = cx, py = cy\<rparr>"
      using cell_at_of_point [OF True] by (simp_all add: k_def)
    show ?thesis
    proof (cases "wr k")
      case None
      have "fold (cond_write ?idx wr) ?ks buf ! ?i = buf ! ?i"
      proof (rule fold_cond_write_other)
        fix k' assume k': "k' \<in> set ?ks" "wr k' \<noteq> None"
        show "?idx k' \<noteq> ?i"
        proof
          assume "?idx k' = ?i"
          then have "cell_at r k' = \<lparr>px = cx, py = cy\<rparr>"
            using offset_inj [OF inB [OF k'(1)] pB] by simp
          then have "k' = k" using k(2) cell_at_inj by metis
          then show False using None k'(2) by simp
        qed
      qed
      then show ?thesis using True None by (simp add: k_def)
    next
      case (Some v)
      have "?idx k < length buf"
        using offset_less [of ?B "cell_at r k"] inB [OF k(1)] len by (simp add: cells_def)
      moreover have "k' = k" if "k' \<in> set ?ks" "?idx k' = ?idx k" for k'
      proof -
        have "cell_at r k' = cell_at r k"
          using offset_inj [OF inB [OF that(1)] inB [OF k(1)]] that(2) by simp
        then show ?thesis by (rule cell_at_inj)
      qed
      ultimately have "fold (cond_write ?idx wr) ?ks buf ! ?idx k = v"
        using k(1) Some by (intro fold_cond_write_hit) auto
      then show ?thesis using True Some k(2) by (simp add: k_def)
    qed
  next
    case False
    have "fold (cond_write ?idx wr) ?ks buf ! ?i = buf ! ?i"
    proof (rule fold_cond_write_other)
      fix k' assume k': "k' \<in> set ?ks" "wr k' \<noteq> None"
      show "?idx k' \<noteq> ?i"
      proof
        assume "?idx k' = ?i"
        then have "cell_at r k' = \<lparr>px = cx, py = cy\<rparr>"
          using offset_inj [OF inB [OF k'(1)] pB] by simp
        then show False using cell_at_inside [OF k'(1)] False by simp
      qed
    qed
    then show ?thesis using False by simp
  qed
qed

lemma fill_rect_nth:
  assumes "contains (Rect4 0 0 W H) r" "length buf = size_r (Rect4 0 0 W H)"
    and "(cx, cy) \<in> cells (Rect4 0 0 W H)"
  shows "fill_rect (Rect4 0 0 W H) r p buf ! offset (Rect4 0 0 W H) \<lparr>px = cx, py = cy\<rparr>
         = (if (cx, cy) \<in> cells r then p else buf ! offset (Rect4 0 0 W H) \<lparr>px = cx, py = cy\<rparr>)"
  unfolding fill_rect_cond_write rect_writes_nth [OF assms] by simp

lemma length_fill_rect [simp]: "length (fill_rect bnds r p buf) = length buf"
  by (simp add: fill_rect_cond_write)

lemma blend_rect_nth:
  assumes "contains (Rect4 0 0 W H) d_crop" "length dst = size_r (Rect4 0 0 W H)"
    and "(cx, cy) \<in> cells (Rect4 0 0 W H)"
  shows "blend_rect False src sb s_crop (Rect4 0 0 W H) d_crop dst
           ! offset (Rect4 0 0 W H) \<lparr>px = cx, py = cy\<rparr>
         = (if (cx, cy) \<in> cells d_crop \<and>
               attr (src ! offset sb \<lparr>px = px (rtop s_crop) + (cx - px (rtop d_crop)),
                                       py = py (rtop s_crop) + (cy - py (rtop d_crop))\<rparr>)
                 AND transparent = 0
            then src ! offset sb \<lparr>px = px (rtop s_crop) + (cx - px (rtop d_crop)),
                                   py = py (rtop s_crop) + (cy - py (rtop d_crop))\<rparr>
            else dst ! offset (Rect4 0 0 W H) \<lparr>px = cx, py = cy\<rparr>)"
proof -
  have "cell_at s_crop (nat (cy - py (rtop d_crop)), nat (cx - px (rtop d_crop)))
      = \<lparr>px = px (rtop s_crop) + (cx - px (rtop d_crop)),
         py = py (rtop s_crop) + (cy - py (rtop d_crop))\<rparr>"
    if "(cx, cy) \<in> cells d_crop"
    using that by (simp add: cell_at_def cells_def)
  then show ?thesis
    unfolding blend_rect_cond_write rect_writes_nth [OF assms]
    by (auto simp: blend_src_def Let_def)
qed

lemma length_blend_rect [simp]: "length (blend_rect False src sb s_crop db d_crop dst) = length dst"
  by (simp add: blend_rect_cond_write)

section \<open>Compositing one child\<close>

lemma intersect_contained: "contains b r \<Longrightarrow> intersect b r = r"
  by (simp add: contains_def intersect_def max_def min_def)

lemma boundingRect_contained: "contains d r \<Longrightarrow> boundingRect d r = d"
  by (simp add: contains_def boundingRect_def max_def min_def)

lemma contains_refl [simp]: "contains r r"
  by (simp add: contains_def)

lemma contains_trans: "contains a b \<Longrightarrow> contains b c \<Longrightarrow> contains a c"
  by (auto simp: contains_def)

lemma invalidate_absorbed:
  "valid (mDirty s) \<Longrightarrow> contains (mBounds s) r \<Longrightarrow> contains (mDirty s) r \<Longrightarrow> invalidate s r = s"
  by (simp add: invalidate_def intersect_contained boundingRect_contained)

lemma fill_contained:
  "valid r \<Longrightarrow> contains (mBounds s) r \<Longrightarrow>
     fill s p r = Inr (invalidate (s\<lparr>mData := fill_rect (mBounds s) r p (mData s)\<rparr>) r)"
  by (simp add: fill_def intersect_contained)

lemma clear_dirty_contained:
  assumes "mLayerMap (h P) \<noteq> []" "valid (mDirty (h P))" "contains (mBounds (h P)) (mDirty (h P))"
  shows "clear_dirty P h
           = h(P := (h P)\<lparr>mData := fill_rect (mBounds (h P)) (mDirty (h P)) blank (mData (h P))\<rparr>)"
proof -
  have "invalidate ((h P)\<lparr>mData := d\<rparr>) (mDirty (h P)) = (h P)\<lparr>mData := d\<rparr>" for d
    using assms by (intro invalidate_absorbed) simp_all
  then show ?thesis
    using assms by (simp add: clear_dirty_def clear_def fill_contained ignoring_def)
qed

text \<open>The crop that \<open>render\<close> hands to \<open>blend\<close> for a child, and what \<open>blend\<close> makes of it.\<close>

lemma blend_child_crop:
  assumes "P \<noteq> C" "mBounds (h C) = Rect4 0 0 w hc" "mVisible (h C)" "0 < w" "0 < hc"
    and "valid (mDirty (h P))" "contains (mBounds (h P)) (mDirty (h P))"
  defines "c0 \<equiv> intersect (mDirty (h P)) (bounds (h C))"
  defines "src_crop \<equiv> Rect4 (px (rtop c0) - px (mPos (h C))) (py (rtop c0) - py (mPos (h C)))
                              (px (rbottom c0) - px (mPos (h C))) (py (rbottom c0) - py (mPos (h C)))"
  shows "blend_child P C h =
           h(P := (h P)\<lparr>mData := (if valid c0
                                     then blend_rect False (mData (h C)) (mBounds (h C)) src_crop
                                            (mBounds (h P)) c0 (mData (h P))
                                     else mData (h P))\<rparr>,
             C := (h C)\<lparr>mDirty := Rect0\<rparr>)"
proof -
  have sc: "intersect (mBounds (h C)) src_crop = src_crop"
    by (rule intersect_contained)
       (auto simp: assms(2) src_crop_def c0_def contains_def intersect_def bounds_def move_r_def
          Rect4_def)
  have mv: "move_r src_crop (rtop c0) = c0"
    by (simp add: move_r_def src_crop_def Rect4_def)
  have c0D: "contains (mDirty (h P)) c0" by (simp add: c0_def contains_intersect_left)
  then have c0B: "contains (mBounds (h P)) c0" using assms(7) contains_trans by blast
  have vs: "valid src_crop \<longleftrightarrow> valid c0" by (simp add: src_crop_def valid_def Rect4_def)
  have bl: "fst (blend h P C src_crop (rtop c0)) =
      (if valid c0
       then h(P := (h P)\<lparr>mData := blend_rect False (mData (h C)) (mBounds (h C)) src_crop
                                    (mBounds (h P)) c0 (mData (h P))\<rparr>)
       else h)"
  proof (cases "valid c0")
    case True
    have "invalidate ((h P)\<lparr>mData := d\<rparr>) c0 = (h P)\<lparr>mData := d\<rparr>" for d
      using assms(6) c0D c0B by (intro invalidate_absorbed) simp_all
    then show ?thesis
      using True vs assms(1) by (simp add: blend_def sc mv intersect_contained [OF c0B] Let_def)
  next
    case False
    then show ?thesis using vs by (simp add: blend_def sc mv Let_def)
  qed
  have "valid (mBounds (h C))" using assms(2,4,5) by simp
  then have "blend_child P C h =
      (fst (blend h P C src_crop (rtop c0)))(C := (fst (blend h P C src_crop (rtop c0)) C)\<lparr>mDirty := Rect0\<rparr>)"
    using assms(3) by (simp add: blend_child_def Let_def c0_def src_crop_def)
  also have "\<dots> = h(P := (h P)\<lparr>mData := (if valid c0
                                     then blend_rect False (mData (h C)) (mBounds (h C)) src_crop
                                            (mBounds (h P)) c0 (mData (h P))
                                     else mData (h P))\<rparr>,
             C := (h C)\<lparr>mDirty := Rect0\<rparr>)"
    using assms(1) by (auto simp: bl)
  finally show ?thesis .
qed

lemma single_child_render:
  assumes ne: "P \<noteq> C"
    and P: "mBounds (h P) = Rect4 0 0 W H" "mParent (h P) = None" "mLayerMap (h P) = [(Z, [C])]"
      "length (mData (h P)) = size_r (Rect4 0 0 W H)"
    and C: "mBounds (h C) = Rect4 0 0 w hc" "0 < w" "0 < hc" "mVisible (h C)"
    and D: "D = mDirty (collect_dirty P h P)" "valid D" "contains (Rect4 0 0 W H) D"
  shows "\<exists>h'. render (Suc 0) h P = Some (h', [(P, D)]) \<and> frame h h' \<and>
           mDirty (h' P) = Rect0 \<and> mDirty (h' C) = Rect0 \<and>
           (\<forall>a. a \<noteq> P \<longrightarrow> mData (h' a) = mData (h a)) \<and>
           length (mData (h' P)) = length (mData (h P)) \<and>
           (\<forall>cx cy. (cx, cy) \<in> cells (Rect4 0 0 W H) \<longrightarrow>
              mData (h' P) ! offset (Rect4 0 0 W H) \<lparr>px = cx, py = cy\<rparr> = composed h P C D cx cy)"
proof -
  let ?B = "Rect4 0 0 W H"
  define h1 where "h1 = collect_dirty P h"
  define buf2 where "buf2 = fill_rect ?B D blank (mData (h P))"
  define h2 where "h2 = clear_dirty P h1"
  define c0 where "c0 = intersect D (bounds (h C))"
  define src_crop where "src_crop = Rect4 (px (rtop c0) - px (mPos (h C))) (py (rtop c0) - py (mPos (h C)))
                              (px (rbottom c0) - px (mPos (h C))) (py (rbottom c0) - py (mPos (h C)))"
  define buf3 where "buf3 = (if valid c0
      then blend_rect False (mData (h C)) (Rect4 0 0 w hc) src_crop ?B c0 buf2 else buf2)"
  define h3 where "h3 = blend_layers P h2"
  have h1: "h1 = h(P := (h P)\<lparr>mDirty := D\<rparr>)"
    unfolding h1_def D(1) by (rule collect_dirty_shape)
  have h1P: "mLayerMap (h1 P) \<noteq> []" "valid (mDirty (h1 P))" "contains (mBounds (h1 P)) (mDirty (h1 P))"
    using P D by (simp_all add: h1)
  have h2: "h2 = h(P := (h P)\<lparr>mDirty := D, mData := buf2\<rparr>)"
    unfolding h2_def clear_dirty_contained [of h1 P, OF h1P] by (simp add: h1 P buf2_def)
  have h2f: "mBounds (h2 C) = Rect4 0 0 w hc" "mVisible (h2 C)" "valid (mDirty (h2 P))"
    "contains (mBounds (h2 P)) (mDirty (h2 P))" "mDirty (h2 P) = D" "bounds (h2 C) = bounds (h C)"
    "mPos (h2 C) = mPos (h C)" "mData (h2 C) = mData (h C)" "mBounds (h2 P) = ?B" "mData (h2 P) = buf2"
    using ne P C D by (simp_all add: h2 bounds_def)
  have "h3 = blend_child P C h2"
    using P by (simp add: h3_def blend_layers_def layers_def h2)
  also have "\<dots> = h2(P := (h2 P)\<lparr>mData := buf3\<rparr>, C := (h2 C)\<lparr>mDirty := Rect0\<rparr>)"
    unfolding blend_child_crop [of P C h2 w hc, OF ne h2f(1,2) C(2,3) h2f(3,4)]
    by (simp add: h2f buf3_def c0_def src_crop_def)
  finally have h3: "h3 = h(P := (h P)\<lparr>mDirty := D, mData := buf3\<rparr>, C := (h C)\<lparr>mDirty := Rect0\<rparr>)"
    using ne by (simp add: h2)
  define h' where "h' = h3(P := (h3 P)\<lparr>mDirty := Rect0\<rparr>)"
  have r: "render (Suc 0) h P = Some (h', [(P, D)])"
    unfolding render_Suc Let_def h1_def [symmetric] h2_def [symmetric] h3_def [symmetric]
    using ne P D(2) h1P(2) by (simp add: h3 h'_def)
  have len2: "length buf2 = size_r ?B" using P by (simp add: buf2_def)
  have cells3: "buf3 ! offset ?B \<lparr>px = cx, py = cy\<rparr> = composed h P C D cx cy"
    if p: "(cx, cy) \<in> cells ?B" for cx cy
  proof -
    have c0B: "contains ?B c0"
      using contains_trans [OF D(3) contains_intersect_left [of D "bounds (h C)"]] by (simp add: c0_def)
    have b2: "buf2 ! offset ?B \<lparr>px = cx, py = cy\<rparr>
        = (if (cx, cy) \<in> cells D then blank else mData (h P) ! offset ?B \<lparr>px = cx, py = cy\<rparr>)"
      unfolding buf2_def by (rule fill_rect_nth [OF D(3) P(4) p])
    have src: "px (rtop src_crop) + (cx - px (rtop c0)) = cx - px (mPos (h C))"
      "py (rtop src_crop) + (cy - py (rtop c0)) = cy - py (mPos (h C))"
      by (simp_all add: src_crop_def Rect4_def)
    have cc: "(cx, cy) \<in> cells c0 \<longleftrightarrow> (cx, cy) \<in> cells D \<and> (cx, cy) \<in> cells (bounds (h C))"
      by (simp add: c0_def cells_intersect)
    show ?thesis
    proof (cases "valid c0")
      case True
      have "buf3 ! offset ?B \<lparr>px = cx, py = cy\<rparr> =
         (if (cx, cy) \<in> cells c0 \<and>
             attr (mData (h C) ! offset (Rect4 0 0 w hc)
                     \<lparr>px = cx - px (mPos (h C)), py = cy - py (mPos (h C))\<rparr>) AND transparent = 0
          then mData (h C) ! offset (Rect4 0 0 w hc)
                 \<lparr>px = cx - px (mPos (h C)), py = cy - py (mPos (h C))\<rparr>
          else buf2 ! offset ?B \<lparr>px = cx, py = cy\<rparr>)"
        using True blend_rect_nth [OF c0B len2 p, of "mData (h C)" "Rect4 0 0 w hc" src_crop]
        by (simp add: buf3_def src)
      then show ?thesis
        using b2 cc by (simp add: composed_def Let_def C(1) P(1))
    next
      case False
      then have "(cx, cy) \<notin> cells c0" using valid_cells [of c0] by simp
      then show ?thesis
        using False b2 cc by (simp add: composed_def Let_def buf3_def P(1))
    qed
  qed
  have "frame h h'" using render_frame_cleaned [OF r] by simp
  moreover have "mDirty (h' P) = Rect0" "mDirty (h' C) = Rect0" "\<forall>a. a \<noteq> P \<longrightarrow> mData (h' a) = mData (h a)"
    using ne by (simp_all add: h'_def h3)
  moreover have "mData (h' P) = buf3" using ne by (simp add: h'_def h3)
  moreover have "length buf3 = length (mData (h P))"
    using len2 P(4) by (simp add: buf3_def)
  ultimately show ?thesis using r cells3 by auto
qed

section \<open>A child attached to a root\<close>

lemma add_b_eq:
  assumes "R \<noteq> C" "mLayerMap (h R) = []"
  shows "add_b h R C b =
     h(R := (invalidate (h R) (Rect4 2 2 4 4))\<lparr>mLayerMap := [(1, [C])]\<rparr>,
       C := \<lparr>mBounds = Rect4 0 0 2 2, mDirty = Rect4 0 0 2 2, mPos = \<lparr>px = 2, py = 2\<rparr>,
              mVisible = True, mParent = Some R, mData = replicate 4 b, mLayerMap = []\<rparr>)"
proof -
  define h1 where "h1 = Surface_new h C 2 2"
  define h2 where "h2 = h1(C := ignoring (h1 C) (fill (h1 C) b Rect0))"
  have h2: "h2 = h(C := \<lparr>mBounds = Rect4 0 0 2 2, mDirty = Rect4 0 0 2 2, mPos = \<lparr>px = 0, py = 0\<rparr>,
              mVisible = True, mParent = None, mData = replicate 4 b, mLayerMap = []\<rparr>)"
    by (simp add: h2_def h1_def Surface_new_eq fill_def ignoring_def invalidate_def
        boundingRect_def Rect4_def size_r_def width_def height_def)
  have bd: "bounds ((h2(C := (h2 C)\<lparr>mPos := \<lparr>px = 2, py = 2\<rparr>\<rparr>)) C) = Rect4 2 2 4 4"
    by (simp add: h2 bounds_def move_r_def Rect4_def)
  have "add_b h R C b = fst (addLayer_pos h2 R C \<lparr>px = 2, py = 2\<rparr> 1)"
    by (simp add: add_b_def h2_def h1_def Let_def)
  also have "\<dots> = (h2(C := (h2 C)\<lparr>mPos := \<lparr>px = 2, py = 2\<rparr>\<rparr>,
                     R := (invalidate (h2 R) (Rect4 2 2 4 4))\<lparr>mLayerMap := [(1, [C])]\<rparr>))
                  (C := (h2 C)\<lparr>mPos := \<lparr>px = 2, py = 2\<rparr>, mParent := Some R\<rparr>)"
  proof -
    have "mParent (h2 C) = None" by (simp add: h2)
    moreover have "mLayerMap (h2 R) = []" using assms by (simp add: h2)
    moreover have "invalidate ((h2 R)\<lparr>mLayerMap := m\<rparr>) r = (invalidate (h2 R) r)\<lparr>mLayerMap := m\<rparr>" for m r
      by (simp add: invalidate_def)
    ultimately show ?thesis
      using assms(1) bd by (simp add: addLayer_pos_def Let_def)
  qed
  also have "\<dots> = h(R := (invalidate (h R) (Rect4 2 2 4 4))\<lparr>mLayerMap := [(1, [C])]\<rparr>,
       C := \<lparr>mBounds = Rect4 0 0 2 2, mDirty = Rect4 0 0 2 2, mPos = \<lparr>px = 2, py = 2\<rparr>,
              mVisible = True, mParent = Some R, mData = replicate 4 b, mLayerMap = []\<rparr>)"
    using assms(1) by (simp add: h2 fun_upd_twist)
  finally show ?thesis .
qed

lemma add_b_fields:
  assumes "R \<noteq> C" "mLayerMap (h R) = []"
  shows "mBounds (add_b h R C b R) = mBounds (h R)" "mParent (add_b h R C b R) = mParent (h R)"
    "mData (add_b h R C b R) = mData (h R)" "mLayerMap (add_b h R C b R) = [(1, [C])]"
    "mDirty (add_b h R C b R) = mDirty (invalidate (h R) (Rect4 2 2 4 4))"
    "mBounds (add_b h R C b C) = Rect4 0 0 2 2" "mDirty (add_b h R C b C) = Rect4 0 0 2 2"
    "mPos (add_b h R C b C) = \<lparr>px = 2, py = 2\<rparr>" "mVisible (add_b h R C b C)"
    "mData (add_b h R C b C) = replicate 4 b"
  using assms(1) by (simp_all add: add_b_eq [of R C h b, OF assms])

lemma add_b_collect:
  assumes "R \<noteq> C" "mLayerMap (h R) = []"
  shows "mDirty (collect_dirty R (add_b h R C b) R)
           = mDirty (invalidate (invalidate (h R) (Rect4 2 2 4 4)) (Rect4 2 2 4 4))"
proof -
  have "collect_child R C (add_b h R C b)
      = (add_b h R C b)(R := invalidate (add_b h R C b R) (Rect4 2 2 4 4))"
    by (simp add: collect_child_def add_b_fields [of R C h b, OF assms] Let_def) (simp add: Rect4_def)
  then show ?thesis
    by (simp add: collect_dirty_def layers_def add_b_fields [of R C h b, OF assms] invalidate_def)
qed

text \<open>C2, as amended. The root is 10 by 10, has no parent and no other child, and is clean
  when the child is attached. The child is constructed 2 by 2, filled with a pattern that is
  not transparent (such as \<open>Char('b')\<close>) and attached at position (2, 2), Z = 1. Then
  \<open>render\<close> on the root returns, \<open>renderDone\<close> is invoked once, with \<open>Rect(2, 2, 4, 4)\<close>, and the
  buffer of the root holds the pattern at the offsets (2, 2) to (3, 3) and its previous
  content everywhere else.\<close>

theorem C2_child_rendered:
  assumes ne: "R \<noteq> C"
    and R: "mBounds (h R) = Rect4 0 0 10 10" "\<not> valid (mDirty (h R))" "mParent (h R) = None"
      "mLayerMap (h R) = []" "length (mData (h R)) = size_r (mBounds (h R))"
    and b: "attr b AND transparent = 0"
  shows "\<exists>h'. render (Suc 0) (add_b h R C b) R = Some (h', [(R, Rect4 2 2 4 4)]) \<and>
           (\<forall>cx cy. (cx, cy) \<in> cells (Rect4 0 0 10 10) \<longrightarrow>
              mData (h' R) ! offset (Rect4 0 0 10 10) \<lparr>px = cx, py = cy\<rparr>
                = (if (cx, cy) \<in> cells (Rect4 2 2 4 4) then b
                   else mData (h R) ! offset (Rect4 0 0 10 10) \<lparr>px = cx, py = cy\<rparr>))"
proof -
  let ?g = "add_b h R C b"
  note f = add_b_fields [of R C h b, OF ne R(4)]
  have D: "Rect4 2 2 4 4 = mDirty (collect_dirty R ?g R)"
    unfolding add_b_collect [of R C h b, OF ne R(4)] using R(1,2)
    by (simp add: invalidate_def) (simp add: intersect_def boundingRect_def Rect4_def valid_def)
  have "\<exists>h'. render (Suc 0) ?g R = Some (h', [(R, Rect4 2 2 4 4)]) \<and> frame ?g h' \<and>
           mDirty (h' R) = Rect0 \<and> mDirty (h' C) = Rect0 \<and>
           (\<forall>a. a \<noteq> R \<longrightarrow> mData (h' a) = mData (?g a)) \<and>
           length (mData (h' R)) = length (mData (?g R)) \<and>
           (\<forall>cx cy. (cx, cy) \<in> cells (Rect4 0 0 10 10) \<longrightarrow>
              mData (h' R) ! offset (Rect4 0 0 10 10) \<lparr>px = cx, py = cy\<rparr>
                = composed ?g R C (Rect4 2 2 4 4) cx cy)"
  proof -
    have p: "mBounds (?g R) = Rect4 0 0 10 10" "mParent (?g R) = None"
      "length (mData (?g R)) = size_r (Rect4 0 0 10 10)"
      using f(1,2,3) R by simp_all
    have vD: "valid (Rect4 2 2 4 4)" by simp
    have cD: "contains (Rect4 0 0 10 10) (Rect4 2 2 4 4)" by (simp add: contains_def Rect4_def)
    show ?thesis
      by (rule single_child_render [OF ne p(1,2) f(4) p(3) f(6) _ _ f(9) D vD cD]) simp_all
  qed
  then obtain h' where r: "render (Suc 0) ?g R = Some (h', [(R, Rect4 2 2 4 4)])"
    and cells: "\<And>cx cy. (cx, cy) \<in> cells (Rect4 0 0 10 10) \<Longrightarrow>
              mData (h' R) ! offset (Rect4 0 0 10 10) \<lparr>px = cx, py = cy\<rparr>
                = composed ?g R C (Rect4 2 2 4 4) cx cy"
    by blast
  have bnd: "bounds (?g C) = Rect4 2 2 4 4"
    by (simp add: bounds_def move_r_def f(6,8) Rect4_def)
  have old: "mData (?g R) ! offset (mBounds (?g R)) p = mData (h R) ! offset (Rect4 0 0 10 10) p"
    for p using f(1,3) R(1) by simp
  have "composed ?g R C (Rect4 2 2 4 4) cx cy
      = (if (cx, cy) \<in> cells (Rect4 2 2 4 4) then b
         else mData (h R) ! offset (Rect4 0 0 10 10) \<lparr>px = cx, py = cy\<rparr>)" for cx cy
  proof (cases "(cx, cy) \<in> cells (Rect4 2 2 4 4)")
    case True
    then have "offset (Rect4 0 0 2 2) \<lparr>px = cx - 2, py = cy - 2\<rparr> < size_r (Rect4 0 0 2 2)"
      by (intro offset_less) (simp_all add: Rect4_def cells_def)
    then have "mData (?g C) ! offset (mBounds (?g C))
                 \<lparr>px = cx - px (mPos (?g C)), py = cy - py (mPos (?g C))\<rparr> = b"
      by (simp add: f(6,8,10))
    then show ?thesis
      using True b by (simp add: composed_def Let_def bnd del: cells_Rect4)
  next
    case False
    then show ?thesis by (simp add: composed_def Let_def old del: cells_Rect4)
  qed
  with r cells show ?thesis by auto
qed

text \<open>C2 as stated fails for a root that has not been rendered since its construction: the
  constructor leaves it entirely dirty, and \<open>renderDone\<close> is given \<open>Rect(0, 0, 10, 10)\<close>.\<close>

theorem C2_counterexample:
  "map_option snd (render (Suc 0) ex_fresh_b 10) = Some [(10, Rect4 0 0 10 10)] \<and>
   Rect4 0 0 10 10 \<noteq> Rect4 2 2 4 4"
proof -
  let ?h = "Surface_new store0 10 10 10"
  have ne: "(10::nat) \<noteq> 20" by simp
  have l: "mLayerMap (?h 10) = []" by (simp add: Surface_new_eq)
  note f = add_b_fields [of 10 20 ?h "Char1 (CHR ''b'')", OF ne l]
  have D: "Rect4 0 0 10 10 = mDirty (collect_dirty 10 ex_fresh_b 10)"
    unfolding ex_fresh_b_def add_b_collect [of 10 20 ?h "Char1 (CHR ''b'')", OF ne l]
    by (simp add: Surface_new_eq invalidate_def)
       (simp add: intersect_def boundingRect_def Rect4_def valid_def)
  have p: "mBounds (ex_fresh_b 10) = Rect4 0 0 10 10" "mParent (ex_fresh_b 10) = None"
    "mLayerMap (ex_fresh_b 10) = [(1, [20])]"
    "length (mData (ex_fresh_b 10)) = size_r (Rect4 0 0 10 10)"
    "mBounds (ex_fresh_b 20) = Rect4 0 0 2 2" "mVisible (ex_fresh_b 20)"
  proof -
    have hb: "mBounds (?h 10) = Rect4 0 0 10 10" "mParent (?h 10) = None"
      "length (mData (?h 10)) = size_r (Rect4 0 0 10 10)"
      by (simp_all add: Surface_new_eq)
    show "mBounds (ex_fresh_b 10) = Rect4 0 0 10 10" "mParent (ex_fresh_b 10) = None"
      "mLayerMap (ex_fresh_b 10) = [(1, [20])]"
      "length (mData (ex_fresh_b 10)) = size_r (Rect4 0 0 10 10)"
      "mBounds (ex_fresh_b 20) = Rect4 0 0 2 2" "mVisible (ex_fresh_b 20)"
      using f hb by (simp_all add: ex_fresh_b_def)
  qed
  have vD: "valid (Rect4 0 0 10 10)" by simp
  have cD: "contains (Rect4 0 0 10 10) (Rect4 0 0 10 10)" by simp
  from single_child_render [OF ne p(1,2,3,4,5) _ _ p(6) D vD cD]
  obtain h' where "render (Suc 0) ex_fresh_b 10 = Some (h', [(10, Rect4 0 0 10 10)])"
    by auto
  then show ?thesis by (simp add: Rect4_def)
qed

lemma ex_clean_root_10:
  "mBounds (ex_clean_root 10) = Rect4 0 0 10 10" "\<not> valid (mDirty (ex_clean_root 10))"
  "mParent (ex_clean_root 10) = None" "mLayerMap (ex_clean_root 10) = []"
  "length (mData (ex_clean_root 10)) = size_r (mBounds (ex_clean_root 10))"
  by (simp_all add: ex_clean_root_def Surface_new_eq)

text \<open>The amended C2 on a root that has been rendered once.\<close>

theorem C2_witness:
  "map_option snd (render (Suc 0) ex_clean_b 10) = Some [(10, Rect4 2 2 4 4)] \<and>
   mData (fst (the (render (Suc 0) ex_clean_b 10)) 10) ! offset (Rect4 0 0 10 10) \<lparr>px = 3, py = 2\<rparr>
     = Char1 (CHR ''b'') \<and>
   mData (fst (the (render (Suc 0) ex_clean_b 10)) 10) ! offset (Rect4 0 0 10 10) \<lparr>px = 4, py = 2\<rparr>
     = blank"
proof -
  have ne: "(10::nat) \<noteq> 20" by simp
  have b: "attr (Char1 (CHR ''b'')) AND transparent = 0"
    by (simp add: Char1_def none_def)
  from C2_child_rendered [of 10 20 ex_clean_root "Char1 (CHR ''b'')", OF ne ex_clean_root_10 b]
  obtain h' where r: "render (Suc 0) ex_clean_b 10 = Some (h', [(10, Rect4 2 2 4 4)])"
    and c: "\<And>cx cy. (cx, cy) \<in> cells (Rect4 0 0 10 10) \<Longrightarrow>
              mData (h' 10) ! offset (Rect4 0 0 10 10) \<lparr>px = cx, py = cy\<rparr>
                = (if (cx, cy) \<in> cells (Rect4 2 2 4 4) then Char1 (CHR ''b'')
                   else mData (ex_clean_root 10) ! offset (Rect4 0 0 10 10) \<lparr>px = cx, py = cy\<rparr>)"
    unfolding ex_clean_b_def by blast
  have "mData (ex_clean_root 10) ! offset (Rect4 0 0 10 10) \<lparr>px = 4, py = 2\<rparr> = blank"
    by (simp add: ex_clean_root_def Surface_new_eq offset_origin)
  then show ?thesis using c [of 3 2] c [of 4 2] by (simp add: r)
qed


section \<open>Compositing any number of layers\<close>




















text \<open>With a single layer the painter's result is the content \<open>composed\<close>, and a surface
  without layers has nothing to composite.\<close>

lemma painted_single:
  assumes "layers (h P) = [C]" "mVisible (h C)" "valid (mBounds (h C))"
  shows "painted h P D cx cy = composed h P C D cx cy"
  using assms by (simp add: painted_def paint_cell_def composed_def Let_def)

lemma compose_leaf:
  "mLayerMap (g C) = [] \<Longrightarrow> blend_layers C (clear_dirty C (collect_dirty C g)) = g"
  by (simp add: collect_dirty_def clear_dirty_def blend_layers_def layers_def)


section \<open>Moving a child\<close>









subsection \<open>A parent that is itself attached\<close>







section \<open>Render with a stale dirty rectangle\<close>

lemma ex_stale_fields:
  "mBounds (ex_stale 10) = Rect4 0 0 10 10" "mParent (ex_stale 10) = None"
  "mLayerMap (ex_stale 10) = [(0, [20])]" "mDirty (ex_stale 10) = Rect4 0 0 10 10"
  "mBounds (ex_stale 20) = Rect4 0 0 0 0" "mDirty (ex_stale 20) = Rect4 0 0 2 2"
  "mVisible (ex_stale 20)" "mPos (ex_stale 20) = \<lparr>px = 0, py = 0\<rparr>"
  by (simp_all add: ex_stale_def addLayer_def resize_def clear_def fill_def ignoring_def fill_all_def ev)

text \<open>With a child whose dirty rectangle is stale after \<open>resize\<close>, the second \<open>render\<close> invokes
  \<open>renderDone\<close> again.\<close>

lemma render_twice_stale_child:
  "\<exists>h1 h2. render (Suc 0) ex_stale 10 = Some (h1, [(10, Rect4 0 0 10 10)]) \<and>
           render (Suc 0) h1 10 = Some (h2, [(10, Rect4 0 0 2 2)])"
proof -
  note f = ex_stale_fields
  have skip: "blend_child 10 20 g = g" if "mBounds (g 20) = Rect4 0 0 0 0" for g
    using that by (simp add: blend_child_def)
  have step: "\<exists>h'. render (Suc 0) g 10 = Some (h', [(10, d)]) \<and> frame g h' \<and>
                 mDirty (h' 20) = mDirty (g 20) \<and> mDirty (h' 10) = Rect0"
    if g: "frame ex_stale g" and d: "mDirty (collect_dirty 10 g 10) = d" "valid d"
      "contains (Rect4 0 0 10 10) d" for g d
  proof -
    define h1 where "h1 = collect_dirty 10 g"
    define h2 where "h2 = clear_dirty 10 h1"
    have f2: "frame ex_stale h2"
      unfolding h2_def h1_def
      by (meson g frame_trans collect_dirty_frame clear_dirty_frame)
    then have l: "layers (h2 10) = [20]" "mBounds (h2 20) = Rect4 0 0 0 0" "mParent (h2 10) = None"
      using f by (simp_all add: frame_def layers_def)
    have h3: "blend_layers 10 h2 = h2"
      by (simp add: blend_layers_def l skip)
    have d20: "mDirty (h2 20) = mDirty (g 20)"
      by (simp add: h2_def h1_def clear_dirty_other collect_dirty_other)
    have "mLayerMap (h1 10) \<noteq> []" "contains (mBounds (h1 10)) (mDirty (h1 10))" "valid (mDirty (h1 10))"
      using g f d collect_dirty_frame [of g 10] by (simp_all add: h1_def frame_def)
    then have d10: "mDirty (h2 10) = d"
      unfolding h2_def using clear_dirty_contained [of h1 10] d by (simp add: h1_def)
    have "render (Suc 0) g 10 = Some (h2(10 := (h2 10)\<lparr>mDirty := Rect0\<rparr>), [(10, d)])"
      unfolding render_Suc Let_def h1_def [symmetric] h2_def [symmetric] h3
      using d l by (simp add: h1_def d10)
    moreover have "frame g (h2(10 := (h2 10)\<lparr>mDirty := Rect0\<rparr>))"
      using f2 g by (simp add: frame_def)
    ultimately show ?thesis using d20 by auto
  qed
  have c1: "mDirty (collect_dirty 10 ex_stale 10) = Rect4 0 0 10 10"
    by (simp add: collect_dirty_def layers_def collect_child_def f Let_def)
       (simp add: invalidate_def f intersect_def boundingRect_def Rect4_def valid_def)
  have "valid (Rect4 0 0 10 10)" "contains (Rect4 0 0 10 10) (Rect4 0 0 10 10)"
    by simp_all
  from step [OF frame_refl c1 this]
  obtain h1 where r1: "render (Suc 0) ex_stale 10 = Some (h1, [(10, Rect4 0 0 10 10)])"
    and f1: "frame ex_stale h1" and d1: "mDirty (h1 20) = Rect4 0 0 2 2" "mDirty (h1 10) = Rect0"
    using f(6) by auto
  have c2: "mDirty (collect_dirty 10 h1 10) = Rect4 0 0 2 2"
    using f1 f d1
    by (simp add: collect_dirty_def layers_def collect_child_def frame_def Let_def)
       (simp add: invalidate_def intersect_def Rect4_def valid_def Rect0_def)
  have "valid (Rect4 0 0 2 2)" "contains (Rect4 0 0 10 10) (Rect4 0 0 2 2)"
    by (simp_all add: contains_def Rect4_def valid_def)
  from step [OF f1 c2 this]
  obtain h2 where "render (Suc 0) h1 10 = Some (h2, [(10, Rect4 0 0 2 2)])"
    by blast
  with r1 show ?thesis by blast
qed

section \<open>Sequences of \<open>invalidate\<close> calls\<close>

text \<open>
  On a surface whose bounds are as \<open>resize\<close> sets them (\<open>W\<close> by \<open>H\<close> at the origin, both below
  \<open>2 ^ 63\<close>) and whose dirty rectangle lies within them, a sequence of \<open>invalidate\<close> calls
  keeps the bounds and the invariant and only grows the dirty rectangle, and the dirty
  rectangle at the end covers what every call named, clipped to the bounds, for the calls
  whose indices are indices of the buffer.
\<close>

lemma size_t_of_nat: "n < 2 ^ 64 \<Longrightarrow> size_t_of (int n) = n"
  by (simp add: size_t_of_def unat_of_nat)

lemma ssize_t_of_nat:
  assumes "n < 2 ^ 63"
  shows "ssize_t_of n = int n"
proof -
  have "uint (word_of_nat n :: 64 word) = int n"
    using assms by (simp add: uint_nat unat_of_nat)
  moreover have "int n < 2 ^ 63"
    using assms by (metis of_nat_less_iff of_nat_numeral of_nat_power)
  ultimately show ?thesis
    unfolding ssize_t_of_def sint_uint by (simp add: signed_take_bit_int_eq_self)
qed

text \<open>On the bounds of a surface, \<open>point_for\<close> of a buffer index is its column and row.\<close>

lemma point_for_origin:
  assumes "W < 2 ^ 63" "H < 2 ^ 63" "k < W * H"
  shows "point_for (Rect4 0 0 (int W) (int H)) k = Some \<lparr>px = int (k mod W), py = int (k div W)\<rparr>"
proof -
  have W: "0 < W" using assms(3) by (cases W) simp_all
  have "W < 2 ^ 64" using assms(1) by simp
  then have w: "size_t_of (int W) = W" by (rule size_t_of_nat)
  have z: "size_t_of 0 = 0" by (simp add: size_t_of_def)
  have "k mod W < W" using W by simp
  then have "k mod W < 2 ^ 63" using assms(1) by simp
  then have x: "ssize_t_of (k mod W) = int (k mod W)" by (rule ssize_t_of_nat)
  have "k div W < H" using assms(3) by (simp add: less_mult_imp_div_less mult.commute)
  then have "k div W < 2 ^ 63" using assms(2) by simp
  then have y: "ssize_t_of (k div W) = int (k div W)" by (rule ssize_t_of_nat)
  show ?thesis using W by (simp add: point_for_def Rect4_def w z x y)
qed

lemma same_row_mod:
  fixes i k W :: nat
  assumes "i \<le> k" "i div W = k div W"
  shows "i mod W \<le> k mod W"
proof -
  have a: "i mod W = i - i div W * W"
    by (simp add: minus_div_mult_eq_mod)
  have "k mod W = k - k div W * W"
    by (simp add: minus_div_mult_eq_mod)
  then have b: "k mod W = k - i div W * W"
    unfolding assms(2) [symmetric] .
  show ?thesis unfolding a b using assms(1) by (rule diff_le_mono)
qed

lemma invalidate_range_covers:
  assumes "invalidate_range s i j = Some s'" "mBounds s = Rect4 0 0 (int W) (int H)"
    "W < 2 ^ 63" "H < 2 ^ 63" "j \<le> W * H"
  shows "region (mBounds s) (Inv_range i j) \<inter> cells (mBounds s) \<subseteq> cells (mDirty s')"
proof
  fix p assume p: "p \<in> region (mBounds s) (Inv_range i j) \<inter> cells (mBounds s)"
  obtain cx cy where pc: "p = (cx, cy)" by (cases p)
  from p pc obtain k where k: "i \<le> k" "k < j"
    "point_for (mBounds s) k = Some \<lparr>px = cx, py = cy\<rparr>" and inb: "(cx, cy) \<in> cells (mBounds s)"
    by (auto simp: region_def)
  have lt: "i < W * H" "j - 1 < W * H" "k < W * H" using k(1,2) assms(5) by simp_all
  note pf = point_for_origin [OF assms(3,4)]
  have j: "(if j = 0 then 2 ^ 64 - 1 else j - 1) = j - 1" using k(2) by simp
  have "W < 2 ^ 64" using assms(3) by simp
  then have wd: "ssize_t_of (size_t_of (px (rbottom (mBounds s)) - px (rtop (mBounds s)))) = int W"
    using assms(3) by (simp add: assms(2) Rect4_def size_t_of_nat ssize_t_of_nat)
  define r where "r = (if i div W = (j - 1) div W
       then Rect4 (int (i mod W)) (int (i div W)) (int ((j - 1) mod W) + 1) (int ((j - 1) div W) + 1)
       else Rect4 0 (int (i div W)) (int W) (int ((j - 1) div W) + 1))"
  have "invalidate_range s i j = Some (invalidate s r)"
    unfolding invalidate_range_def j wd unfolding assms(2) pf [OF lt(1)] pf [OF lt(2)] r_def
    by simp
  then have s': "s' = invalidate s r" using assms(1) by simp
  have c: "cx = int (k mod W)" "cy = int (k div W)"
    using k(3) unfolding assms(2) pf [OF lt(3)] by simp_all
  have W: "0 < W" using lt(3) by (cases W) simp_all
  have kj: "k \<le> j - 1" using k(2) by simp
  have le: "i div W \<le> k div W" "k div W \<le> (j - 1) div W"
    using k(1) kj by (simp_all add: div_le_mono)
  have "(cx, cy) \<in> cells r"
  proof (cases "i div W = (j - 1) div W")
    case True
    then have q: "i div W = k div W" "k div W = (j - 1) div W" using le by simp_all
    have "i mod W \<le> k mod W" "k mod W \<le> (j - 1) mod W"
      using same_row_mod [OF k(1) q(1)] same_row_mod [OF kj q(2)] by simp_all
    then show ?thesis using True q by (simp add: r_def c cells_def Rect4_def)
  next
    case False
    have "k mod W < W" using W by simp
    then show ?thesis using False le by (simp add: r_def c cells_def Rect4_def)
  qed
  then have "(cx, cy) \<in> cells (mDirty s) \<union> (cells r \<inter> cells (mBounds s))"
    using inb by simp
  then show "p \<in> cells (mDirty s')"
    using invalidate_grows(1) [of s r] by (auto simp: s' pc)
qed

lemma valid_contains: "valid d \<Longrightarrow> contains d' d \<Longrightarrow> valid d'"
  by (auto simp: valid_def contains_def)

text \<open>One call, on a surface whose dirty rectangle lies within its bounds.\<close>

lemma do_call_grows:
  assumes "dirty_ok s" "do_call s c = Some s'"
  shows "mBounds s' = mBounds s" "dirty_ok s'" "cells (mDirty s) \<subseteq> cells (mDirty s')"
    "valid (mDirty s) \<Longrightarrow> contains (mDirty s') (mDirty s)"
proof -
  show "mBounds s' = mBounds s"
    using assms(2)
    by (cases c) (auto simp: invalidate_all_def invalidate_def invalidate_range_def split: option.splits)
  show "dirty_ok s'"
    using assms
    by (cases c) (auto simp: dirty_ok_invalidate_all dirty_ok_invalidate dirty_ok_invalidate_range)
  have all: "cells (mDirty s) \<subseteq> cells (mBounds s)"
    using assms(1) valid_cells [of "mDirty s"] contains_cells [of "mBounds s" "mDirty s"]
    by (auto simp: dirty_ok_def)
  show "cells (mDirty s) \<subseteq> cells (mDirty s')"
  proof (cases c)
    case Inv_all
    then show ?thesis using assms(2) all by (auto simp: invalidate_all_def)
  next
    case (Inv_rect r)
    then show ?thesis using assms(2) invalidate_grows(1) [of s r] by auto
  next
    case (Inv_range i j)
    then show ?thesis using assms(2) invalidate_range_grows(1) [of s i j s'] by simp
  qed
  show "contains (mDirty s') (mDirty s)" if "valid (mDirty s)"
  proof (cases c)
    case Inv_all
    then show ?thesis using assms that by (auto simp: invalidate_all_def dirty_ok_def)
  next
    case (Inv_rect r)
    then show ?thesis using assms(2) that invalidate_grows(2) [of s r] by auto
  next
    case (Inv_range i j)
    then show ?thesis using assms(2) that invalidate_range_grows(2) [of s i j s'] by simp
  qed
qed

lemma do_call_covers:
  assumes "do_call s c = Some s'" "mBounds s = Rect4 0 0 (int W) (int H)"
    "W < 2 ^ 63" "H < 2 ^ 63" "in_buffer (mBounds s) c"
  shows "region (mBounds s) c \<inter> cells (mBounds s) \<subseteq> cells (mDirty s')"
proof (cases c)
  case Inv_all
  then show ?thesis using assms(1) by (auto simp: invalidate_all_def region_def)
next
  case (Inv_rect r)
  then show ?thesis using assms(1) invalidate_grows(1) [of s r] by (auto simp: region_def)
next
  case (Inv_range i j)
  then have "j \<le> W * H"
    using assms(5) by (simp add: in_buffer_def assms(2))
  moreover have "invalidate_range s i j = Some s'" using assms(1) Inv_range by simp
  ultimately show ?thesis
    unfolding Inv_range using assms(2,3,4) by (intro invalidate_range_covers)
qed

text \<open>Any sequence of calls.\<close>

lemma invalidate_calls_monotone:
  assumes "dirty_ok s" "mBounds s = Rect4 0 0 (int W) (int H)" "W < 2 ^ 63" "H < 2 ^ 63"
    "do_calls s cs = Some s'"
  shows "mBounds s' = mBounds s \<and> dirty_ok s' \<and> cells (mDirty s) \<subseteq> cells (mDirty s') \<and>
         (valid (mDirty s) \<longrightarrow> contains (mDirty s') (mDirty s)) \<and>
         (\<forall>c \<in> set cs. in_buffer (mBounds s) c \<longrightarrow>
            region (mBounds s) c \<inter> cells (mBounds s) \<subseteq> cells (mDirty s'))"
  using assms(1,2,5)
proof (induction cs arbitrary: s)
  case Nil
  then show ?case by simp
next
  case (Cons c cs)
  from Cons.prems(3) obtain s1 where s1: "do_call s c = Some s1" "do_calls s1 cs = Some s'"
    by (auto split: option.splits)
  note g = do_call_grows [OF Cons.prems(1) s1(1)]
  have b1: "mBounds s1 = Rect4 0 0 (int W) (int H)" using g(1) Cons.prems(2) by simp
  have ih: "mBounds s' = mBounds s1 \<and> dirty_ok s' \<and> cells (mDirty s1) \<subseteq> cells (mDirty s') \<and>
         (valid (mDirty s1) \<longrightarrow> contains (mDirty s') (mDirty s1)) \<and>
         (\<forall>c \<in> set cs. in_buffer (mBounds s1) c \<longrightarrow>
            region (mBounds s1) c \<inter> cells (mBounds s1) \<subseteq> cells (mDirty s'))"
    by (rule Cons.IH [OF g(2) b1 s1(2)])
  have "contains (mDirty s') (mDirty s)" if v: "valid (mDirty s)"
  proof -
    have "contains (mDirty s1) (mDirty s)" using g(4) v by simp
    moreover from this v have "valid (mDirty s1)" by (rule valid_contains [rotated])
    ultimately show ?thesis using ih contains_trans by blast
  qed
  moreover have "region (mBounds s) c \<inter> cells (mBounds s) \<subseteq> cells (mDirty s')"
    if "in_buffer (mBounds s) c"
    using do_call_covers [OF s1(1) Cons.prems(2) assms(3,4) that] ih by blast
  ultimately show ?case using ih g(1,3) by auto
qed

text \<open>Beyond the buffer the row wraps: the index \<open>2 ^ 64 - 1\<close>, which \<open>invalidate(0, 0)\<close> passes
  as \<open>end - 1\<close>, lies in row \<open>-1\<close> of a surface one cell wide, and the call marks nothing on
  a clean surface.\<close>

lemma point_for_wraps: "point_for (Rect4 0 0 1 10) (2 ^ 64 - 1) = Some \<lparr>px = 0, py = - 1\<rparr>"
  by (simp add: point_for_def Rect4_def size_t_of_def ssize_t_of_def)

lemma invalidate_range_end_0:
  "map_option mDirty (invalidate_range (Surface_default\<lparr>mBounds := Rect4 0 0 1 10\<rparr>) 0 0)
     = Some (Rect4 0 0 1 0)"
proof -
  let ?s = "Surface_default\<lparr>mBounds := Rect4 0 0 1 10\<rparr>"
  have p0: "point_for (Rect4 0 0 1 10) 0 = Some \<lparr>px = 0, py = 0\<rparr>"
    by (simp add: point_for_def Rect4_def size_t_of_def ssize_t_of_def)
  have w: "ssize_t_of (size_t_of (px (rbottom (Rect4 0 0 1 10)) - px (rtop (Rect4 0 0 1 10)))) = 1"
    by (simp add: Rect4_def size_t_of_def ssize_t_of_def)
  have pe: "point_for (Rect4 0 0 1 10) 18446744073709551615 = Some \<lparr>px = 0, py = - 1\<rparr>"
    using point_for_wraps by simp
  have "invalidate_range ?s 0 0 = Some (invalidate ?s (Rect4 0 0 1 0))"
    by (simp add: invalidate_range_def p0 pe w)
  moreover have "mDirty (invalidate ?s (Rect4 0 0 1 0)) = Rect4 0 0 1 0"
    by (simp add: invalidate_def Surface_default_def intersect_def Rect0_def Rect4_def valid_def)
  ultimately show ?thesis by simp
qed

end
